theory Spec2Isabelle
  imports Main "HOL-Library.Word"
begin

unbundle bit_operations_syntax

section \<open>ChunkHelper (ChunkedArray.hpp)\<close>

text \<open>
  The template parameter \<open>CHUNK_SIZE\<close> is the argument \<open>cs\<close> of every function below.
  \<open>size_t\<close> is 64 bits wide; sizes and indices are natural numbers (no container of the
  model comes near \<open>2 ^ 64\<close> elements), the one subtraction of the source that can wrap
  (in the iterator) is written out modulo \<open>2 ^ 64\<close>.
\<close>

text \<open>\<open>std::has_single_bit\<close> on a 64-bit value: one of the 64 powers of two.\<close>

definition has_single_bit :: "nat \<Rightarrow> bool" where
  "has_single_bit x = (x \<in> set (map (\<lambda>k. 2 ^ k) [0..<64]))"

text \<open>\<open>std::countr_zero\<close>: the number of trailing zero bits among \<open>w\<close> bits.\<close>

primrec countr_zero_bits :: "nat \<Rightarrow> nat \<Rightarrow> nat" where
  "countr_zero_bits 0 x = 0"
| "countr_zero_bits (Suc w) x = (if odd x then 0 else Suc (countr_zero_bits w (x div 2)))"

definition countr_zero :: "nat \<Rightarrow> nat" where
  "countr_zero x = countr_zero_bits 64 x"

definition LOG2 :: "nat \<Rightarrow> nat" where
  "LOG2 cs = countr_zero cs"

definition MASK :: "nat \<Rightarrow> nat" where
  "MASK cs = cs - 1"

definition ChunkIndex :: "nat \<Rightarrow> nat \<Rightarrow> nat" where
  "ChunkIndex cs globalIndex = drop_bit (LOG2 cs) globalIndex"

definition OffsetIndex :: "nat \<Rightarrow> nat \<Rightarrow> nat" where
  "OffsetIndex cs globalIndex = globalIndex AND MASK cs"

section \<open>ChunkedArray (ChunkedArray.hpp)\<close>

text \<open>
  A chunk is one raw allocation of \<open>CHUNK_SIZE\<close> slots. A slot is \<open>None\<close> while it holds no
  live object (raw memory, or an object whose destructor has run) and \<open>Some v\<close> while it
  holds a constructed element. A pointer into a chunk is the pair of the chunk's position in
  \<open>chunks\<close> and the offset from the chunk's base (offset \<open>CHUNK_SIZE\<close> is one past the end);
  \<open>None\<close> is \<open>nullptr\<close>.

  \<open>dead_destroys\<close> is not a field of the class: it counts the destructor calls that hit a
  slot holding no live object (a second destroy of an element, or a destroy of raw memory),
  which the source cannot observe. For a trivially destructible \<open>T\<close> the source skips
  \<open>destroy_elements\<close>, whose calls would run no code; the model tracks the end of the
  elements' lifetimes for every \<open>T\<close>.
\<close>

type_synonym 'a chunk = "'a option list"
type_synonym ptr = "(nat \<times> nat) option"

record 'a ChunkedArray =
  chunks :: "'a chunk list"
  elemCount :: nat
  m_writePtr :: ptr
  m_chunkEnd :: ptr
  dead_destroys :: nat

definition ChunkedArray_new :: "'a ChunkedArray" where
  "ChunkedArray_new =
     \<lparr>chunks = [], elemCount = 0, m_writePtr = None, m_chunkEnd = None, dead_destroys = 0\<rparr>"

definition make_chunk :: "nat \<Rightarrow> 'a chunk" where
  "make_chunk cs = replicate cs None"

text \<open>Reading and writing one slot; a slot outside the allocated chunks holds nothing.\<close>

definition get_slot :: "'a chunk list \<Rightarrow> nat \<Rightarrow> nat \<Rightarrow> 'a option" where
  "get_slot chs ci off =
     (if ci < length chs \<and> off < length (chs ! ci) then chs ! ci ! off else None)"

definition set_slot :: "nat \<Rightarrow> nat \<Rightarrow> 'a option \<Rightarrow> 'a chunk list \<Rightarrow> 'a chunk list" where
  "set_slot ci off x chs = (if ci < length chs then chs[ci := (chs ! ci)[off := x]] else chs)"

definition size_ca :: "'a ChunkedArray \<Rightarrow> nat" where
  "size_ca a = elemCount a"

definition empty_ca :: "'a ChunkedArray \<Rightarrow> bool" where
  "empty_ca a = (elemCount a = 0)"

definition chunk_count :: "'a ChunkedArray \<Rightarrow> nat" where
  "chunk_count a = length (chunks a)"

text \<open>\<open>operator[]\<close> as a read: \<open>None\<close> when the slot holds no live element.\<close>

definition subscript :: "nat \<Rightarrow> 'a ChunkedArray \<Rightarrow> nat \<Rightarrow> 'a option" where
  "subscript cs a idx = get_slot (chunks a) (ChunkIndex cs idx) (OffsetIndex cs idx)"

text \<open>Assignment through \<open>operator[]\<close>; assigning to a slot with no live element is undefined.\<close>

definition subscript_assign :: "nat \<Rightarrow> nat \<Rightarrow> 'a \<Rightarrow> 'a ChunkedArray \<Rightarrow> 'a ChunkedArray option" where
  "subscript_assign cs idx v a =
     (if subscript cs a idx = None then None
      else Some (a\<lparr>chunks := set_slot (ChunkIndex cs idx) (OffsetIndex cs idx) (Some v) (chunks a)\<rparr>))"

definition update_write_ptr :: "nat \<Rightarrow> 'a ChunkedArray \<Rightarrow> 'a ChunkedArray" where
  "update_write_ptr cs a =
     (if chunks a = [] then a\<lparr>m_writePtr := None, m_chunkEnd := None\<rparr>
      else let writeChunkIdx = ChunkIndex cs (elemCount a) in
        if writeChunkIdx \<ge> length (chunks a) then a\<lparr>m_writePtr := None, m_chunkEnd := None\<rparr>
        else a\<lparr>m_writePtr := Some (writeChunkIdx, OffsetIndex cs (elemCount a)),
               m_chunkEnd := Some (writeChunkIdx, cs)\<rparr>)"

definition allocate_new_chunk :: "nat \<Rightarrow> 'a ChunkedArray \<Rightarrow> 'a ChunkedArray" where
  "allocate_new_chunk cs a =
     a\<lparr>chunks := chunks a @ [make_chunk cs],
       m_writePtr := Some (length (chunks a), 0),
       m_chunkEnd := Some (length (chunks a), cs)\<rparr>"

text \<open>The loop \<open>while (chunks.size() < numChunksNeeded) chunks.push_back(make_chunk())\<close>.\<close>

function push_chunks_until :: "nat \<Rightarrow> nat \<Rightarrow> 'a chunk list \<Rightarrow> 'a chunk list" where
  "push_chunks_until cs numChunksNeeded chs =
     (if length chs < numChunksNeeded
      then push_chunks_until cs numChunksNeeded (chs @ [make_chunk cs])
      else chs)"
  by pat_completeness auto
termination
  by (relation "measure (\<lambda>(cs, n, chs). n - length chs)") auto

declare push_chunks_until.simps [simp del]

definition allocate_chunks_for :: "nat \<Rightarrow> nat \<Rightarrow> 'a ChunkedArray \<Rightarrow> 'a ChunkedArray" where
  "allocate_chunks_for cs count a =
     (if count = 0 then a
      else a\<lparr>chunks := push_chunks_until cs (ChunkIndex cs (count - 1) + 1) (chunks a)\<rparr>)"

text \<open>\<open>std::construct_at\<close> and pointer increment.\<close>

definition construct_at :: "ptr \<Rightarrow> 'a \<Rightarrow> 'a chunk list \<Rightarrow> 'a chunk list" where
  "construct_at p v chs = (case p of None \<Rightarrow> chs | Some (ci, off) \<Rightarrow> set_slot ci off (Some v) chs)"

definition ptr_add :: "ptr \<Rightarrow> nat \<Rightarrow> ptr" where
  "ptr_add p n = (case p of None \<Rightarrow> None | Some (ci, off) \<Rightarrow> Some (ci, off + n))"

definition emplace_back :: "nat \<Rightarrow> 'a \<Rightarrow> 'a ChunkedArray \<Rightarrow> 'a ChunkedArray" where
  "emplace_back cs v a =
     (let a1 = (if m_writePtr a = m_chunkEnd a then allocate_new_chunk cs a else a);
          slot = m_writePtr a1
      in a1\<lparr>chunks := construct_at slot v (chunks a1),
             elemCount := elemCount a1 + 1,
             m_writePtr := ptr_add slot 1\<rparr>)"

definition push_back :: "nat \<Rightarrow> 'a \<Rightarrow> 'a ChunkedArray \<Rightarrow> 'a ChunkedArray" where
  "push_back cs v a = emplace_back cs v a"

text \<open>\<open>std::destroy_at\<close> on the slot \<open>off\<close> of chunk \<open>ci\<close>.\<close>

definition destroy_at :: "nat \<Rightarrow> nat \<Rightarrow> 'a ChunkedArray \<Rightarrow> 'a ChunkedArray" where
  "destroy_at ci off a =
     (if get_slot (chunks a) ci off = None then a\<lparr>dead_destroys := dead_destroys a + 1\<rparr>
      else a\<lparr>chunks := set_slot ci off None (chunks a)\<rparr>)"

text \<open>\<open>std::destroy(base + lo, base + hi)\<close> on chunk \<open>ci\<close>.\<close>

definition destroy_range :: "nat \<Rightarrow> nat \<Rightarrow> nat \<Rightarrow> 'a ChunkedArray \<Rightarrow> 'a ChunkedArray" where
  "destroy_range ci lo hi a = fold (destroy_at ci) [lo..<hi] a"

definition destroy_elements :: "nat \<Rightarrow> nat \<Rightarrow> nat \<Rightarrow> 'a ChunkedArray \<Rightarrow> 'a ChunkedArray" where
  "destroy_elements cs firstIdx lastIdx a =
     (if firstIdx \<ge> lastIdx then a
      else fold (\<lambda>ci. destroy_range ci
                   (if ci = ChunkIndex cs firstIdx then OffsetIndex cs firstIdx else 0)
                   (if ci = ChunkIndex cs (lastIdx - 1) then OffsetIndex cs (lastIdx - 1) + 1 else cs))
             [ChunkIndex cs firstIdx ..< ChunkIndex cs (lastIdx - 1) + 1] a)"

text \<open>\<open>pop_back\<close>; \<open>None\<close> is the failed \<open>assert(elemCount > 0)\<close>.\<close>

definition pop_back :: "nat \<Rightarrow> 'a ChunkedArray \<Rightarrow> 'a ChunkedArray option" where
  "pop_back cs a =
     (if elemCount a = 0 then None
      else let a1 = a\<lparr>elemCount := elemCount a - 1\<rparr>;
               a2 = destroy_at (ChunkIndex cs (elemCount a1)) (OffsetIndex cs (elemCount a1)) a1
           in Some (update_write_ptr cs a2))"

definition clear :: "nat \<Rightarrow> 'a ChunkedArray \<Rightarrow> 'a ChunkedArray" where
  "clear cs a =
     (destroy_elements cs 0 (elemCount a) a)
       \<lparr>elemCount := 0, chunks := [], m_writePtr := None, m_chunkEnd := None\<rparr>"

definition reserve :: "nat \<Rightarrow> nat \<Rightarrow> 'a ChunkedArray \<Rightarrow> 'a ChunkedArray" where
  "reserve cs count a =
     (if count = 0 then a
      else update_write_ptr cs
             (a\<lparr>chunks := push_chunks_until cs (ChunkIndex cs (count - 1) + 1) (chunks a)\<rparr>))"

text \<open>
  \<open>std::uninitialized_default_construct\<close> and \<open>std::uninitialized_fill\<close> on the slots
  \<open>lo..<hi\<close> of chunk \<open>ci\<close>: each slot receives a newly constructed element.
\<close>

definition construct_range :: "nat \<Rightarrow> nat \<Rightarrow> nat \<Rightarrow> 'a \<Rightarrow> 'a chunk list \<Rightarrow> 'a chunk list" where
  "construct_range ci lo hi v chs = fold (\<lambda>j. set_slot ci j (Some v)) [lo..<hi] chs"

text \<open>The loop over the chunks shared by \<open>ensure_size\<close> and \<open>resize(count, value)\<close>.\<close>

definition construct_new_slots :: "nat \<Rightarrow> nat \<Rightarrow> nat \<Rightarrow> 'a \<Rightarrow> 'a chunk list \<Rightarrow> 'a chunk list" where
  "construct_new_slots cs old_count count v chs =
     fold (\<lambda>ci. construct_range ci
             (if ci = ChunkIndex cs old_count then OffsetIndex cs old_count else 0)
             (if ci = ChunkIndex cs (count - 1) then OffsetIndex cs (count - 1) + 1 else cs)
             v)
       [ChunkIndex cs old_count ..< length chs] chs"

text \<open>
  \<open>ensure_size\<close> (only for a default-constructible \<open>T\<close>); \<open>dflt\<close> is the default-constructed
  value of \<open>T\<close>.
\<close>

definition ensure_size :: "nat \<Rightarrow> 'a \<Rightarrow> nat \<Rightarrow> 'a ChunkedArray \<Rightarrow> 'a ChunkedArray" where
  "ensure_size cs dflt count a =
     (if count \<le> elemCount a then a
      else let old_count = elemCount a;
               a1 = allocate_chunks_for cs count (a\<lparr>elemCount := count\<rparr>);
               a2 = a1\<lparr>chunks := construct_new_slots cs old_count count dflt (chunks a1)\<rparr>
           in update_write_ptr cs a2)"

text \<open>\<open>chunks.resize(n)\<close> on the vector of chunk pointers; a new entry is a null pointer.\<close>

definition vector_resize :: "nat \<Rightarrow> 'a \<Rightarrow> 'a list \<Rightarrow> 'a list" where
  "vector_resize n x xs = take n xs @ replicate (n - length xs) x"

definition shrink_to_fit :: "nat \<Rightarrow> 'a ChunkedArray \<Rightarrow> 'a ChunkedArray" where
  "shrink_to_fit cs a =
     (if elemCount a = 0 then clear cs a
      else update_write_ptr cs
             (a\<lparr>chunks := vector_resize (ChunkIndex cs (elemCount a - 1) + 1) [] (chunks a)\<rparr>))"

definition resize :: "nat \<Rightarrow> 'a \<Rightarrow> nat \<Rightarrow> 'a ChunkedArray \<Rightarrow> 'a ChunkedArray" where
  "resize cs dflt count a =
     (if count > elemCount a then ensure_size cs dflt count a
      else if count < elemCount a
      then update_write_ptr cs ((destroy_elements cs count (elemCount a) a)\<lparr>elemCount := count\<rparr>)
      else a)"

definition resize_value :: "nat \<Rightarrow> nat \<Rightarrow> 'a \<Rightarrow> 'a ChunkedArray \<Rightarrow> 'a ChunkedArray" where
  "resize_value cs count v a =
     (if count > elemCount a
      then let old_count = elemCount a;
               a1 = allocate_chunks_for cs count (a\<lparr>elemCount := count\<rparr>);
               a2 = a1\<lparr>chunks := construct_new_slots cs old_count count v (chunks a1)\<rparr>
           in update_write_ptr cs a2
      else if count < elemCount a
      then update_write_ptr cs ((destroy_elements cs count (elemCount a) a)\<lparr>elemCount := count\<rparr>)
      else a)"


subsection \<open>Iterator\<close>

text \<open>
  The iterator's \<open>array\<close> pointer is the array passed to each function. \<open>size_t_sub\<close> is the
  subtraction of two \<open>size_t\<close> values, which wraps around.
\<close>

definition size_t_sub :: "nat \<Rightarrow> nat \<Rightarrow> nat" where
  "size_t_sub x y = (x + 2 ^ 64 - y mod 2 ^ 64) mod 2 ^ 64"

record Iterator =
  current :: ptr
  chunk_end :: ptr
  chunk_index :: nat

definition get_chunk_ptr :: "nat \<Rightarrow> ptr" where
  "get_chunk_ptr chunkIndex = Some (chunkIndex, 0)"

definition Iterator_new :: "nat \<Rightarrow> 'a ChunkedArray \<Rightarrow> nat \<Rightarrow> Iterator" where
  "Iterator_new cs a idx =
     (if idx < size_ca a
      then let ci = ChunkIndex cs idx;
               off = OffsetIndex cs idx;
               chunkData = get_chunk_ptr ci;
               isLast = (ci = size_t_sub (chunk_count a) 1);
               elemsInChunk = (if isLast then size_t_sub (size_ca a) (ci * cs) else cs)
           in \<lparr>current = ptr_add chunkData off, chunk_end = ptr_add chunkData elemsInChunk,
               chunk_index = ci\<rparr>
      else \<lparr>current = None, chunk_end = None, chunk_index = chunk_count a\<rparr>)"

definition reload_chunk :: "nat \<Rightarrow> 'a ChunkedArray \<Rightarrow> Iterator \<Rightarrow> Iterator" where
  "reload_chunk cs a it =
     (if chunk_index it < chunk_count a
      then let chunkData = get_chunk_ptr (chunk_index it);
               isLast = (chunk_index it = size_t_sub (chunk_count a) 1);
               elemsInChunk = (if isLast then size_t_sub (size_ca a) (chunk_index it * cs) else cs)
           in it\<lparr>current := chunkData, chunk_end := ptr_add chunkData elemsInChunk\<rparr>
      else it\<lparr>current := None, chunk_end := None\<rparr>)"

text \<open>\<open>operator++\<close>.\<close>

definition increment :: "nat \<Rightarrow> 'a ChunkedArray \<Rightarrow> Iterator \<Rightarrow> Iterator" where
  "increment cs a it =
     (let it1 = it\<lparr>current := ptr_add (current it) 1\<rparr>
      in if current it1 = chunk_end it1
         then reload_chunk cs a (it1\<lparr>chunk_index := chunk_index it1 + 1\<rparr>)
         else it1)"

text \<open>\<open>operator*\<close>: \<open>None\<close> when the pointer is null or the slot holds no live element.\<close>

definition deref :: "'a ChunkedArray \<Rightarrow> Iterator \<Rightarrow> 'a option" where
  "deref a it = (case current it of None \<Rightarrow> None | Some (ci, off) \<Rightarrow> get_slot (chunks a) ci off)"

definition begin_it :: "nat \<Rightarrow> 'a ChunkedArray \<Rightarrow> Iterator" where
  "begin_it cs a = Iterator_new cs a 0"

definition end_it :: "nat \<Rightarrow> 'a ChunkedArray \<Rightarrow> Iterator" where
  "end_it cs a = Iterator_new cs a (elemCount a)"

definition iterator_eq :: "Iterator \<Rightarrow> Iterator \<Rightarrow> bool" where
  "iterator_eq it other = (current it = current other)"

text \<open>
  The loop \<open>for (auto it = a.begin(); it != a.end(); ++it) visit(*it)\<close>. \<open>Inr xs\<close>: the loop
  ended after visiting \<open>xs\<close>. \<open>Inl xs\<close>: after visiting \<open>xs\<close> the loop dereferenced a position
  that holds no live element (or the bound on the number of steps was reached).
\<close>

fun visit_loop :: "nat \<Rightarrow> nat \<Rightarrow> 'a ChunkedArray \<Rightarrow> Iterator \<Rightarrow> 'a list \<Rightarrow> 'a list + 'a list" where
  "visit_loop 0 cs a it acc = (if iterator_eq it (end_it cs a) then Inr acc else Inl acc)"
| "visit_loop (Suc fuel) cs a it acc =
     (if iterator_eq it (end_it cs a) then Inr acc
      else case deref a it of
             None \<Rightarrow> Inl acc
           | Some v \<Rightarrow> visit_loop fuel cs a (increment cs a it) (acc @ [v]))"

definition iterate :: "nat \<Rightarrow> 'a ChunkedArray \<Rightarrow> 'a list + 'a list" where
  "iterate cs a = visit_loop (cs * chunk_count a + 1) cs a (begin_it cs a) []"

subsection \<open>Operation sequences and the reference dynamic array\<close>

datatype 'a array_op =
    PushBack 'a | EmplaceBack 'a | PopBack | Resize nat | ResizeValue nat 'a
  | EnsureSize nat | Clear | Reserve nat | ShrinkToFit | Assign nat 'a

text \<open>One operation on the chunked array; \<open>None\<close> is a violated precondition.\<close>

fun apply_op :: "nat \<Rightarrow> 'a \<Rightarrow> 'a array_op \<Rightarrow> 'a ChunkedArray \<Rightarrow> 'a ChunkedArray option" where
  "apply_op cs dflt (PushBack v) a = Some (push_back cs v a)"
| "apply_op cs dflt (EmplaceBack v) a = Some (emplace_back cs v a)"
| "apply_op cs dflt PopBack a = pop_back cs a"
| "apply_op cs dflt (Resize n) a = Some (resize cs dflt n a)"
| "apply_op cs dflt (ResizeValue n v) a = Some (resize_value cs n v a)"
| "apply_op cs dflt (EnsureSize n) a = Some (ensure_size cs dflt n a)"
| "apply_op cs dflt Clear a = Some (clear cs a)"
| "apply_op cs dflt (Reserve n) a = Some (reserve cs n a)"
| "apply_op cs dflt ShrinkToFit a = Some (shrink_to_fit cs a)"
| "apply_op cs dflt (Assign i v) a = (if i < elemCount a then subscript_assign cs i v a else None)"

fun run_ops :: "nat \<Rightarrow> 'a \<Rightarrow> 'a array_op list \<Rightarrow> 'a ChunkedArray \<Rightarrow> 'a ChunkedArray option" where
  "run_ops cs dflt [] a = Some a"
| "run_ops cs dflt (x # xs) a =
     (case apply_op cs dflt x a of None \<Rightarrow> None | Some a' \<Rightarrow> run_ops cs dflt xs a')"

text \<open>The same operations on the reference array, a \<open>std::vector\<close>, which is a list.\<close>

fun vector_op :: "'a \<Rightarrow> 'a array_op \<Rightarrow> 'a list \<Rightarrow> 'a list option" where
  "vector_op dflt (PushBack v) xs = Some (xs @ [v])"
| "vector_op dflt (EmplaceBack v) xs = Some (xs @ [v])"
| "vector_op dflt PopBack xs = (if xs = [] then None else Some (butlast xs))"
| "vector_op dflt (Resize n) xs = Some (vector_resize n dflt xs)"
| "vector_op dflt (ResizeValue n v) xs = Some (vector_resize n v xs)"
| "vector_op dflt (EnsureSize n) xs = Some (if n \<le> length xs then xs else vector_resize n dflt xs)"
| "vector_op dflt Clear xs = Some []"
| "vector_op dflt (Reserve n) xs = Some xs"
| "vector_op dflt ShrinkToFit xs = Some xs"
| "vector_op dflt (Assign i v) xs = (if i < length xs then Some (xs[i := v]) else None)"

fun vector_run :: "'a \<Rightarrow> 'a array_op list \<Rightarrow> 'a list \<Rightarrow> 'a list option" where
  "vector_run dflt [] xs = Some xs"
| "vector_run dflt (x # ops) xs =
     (case vector_op dflt x xs of None \<Rightarrow> None | Some xs' \<Rightarrow> vector_run dflt ops xs')"

text \<open>What a caller observes by \<open>operator[]\<close> on the indices below \<open>size()\<close>.\<close>

definition contents :: "nat \<Rightarrow> 'a ChunkedArray \<Rightarrow> 'a option list" where
  "contents cs a = map (subscript cs a) [0..<size_ca a]"

text \<open>The number of slots that hold a live element.\<close>

definition live_count :: "'a ChunkedArray \<Rightarrow> nat" where
  "live_count a = length (filter (\<lambda>s. s \<noteq> None) (concat (chunks a)))"

text \<open>
  The scenario of the write-cursor regression test: push \<open>0, 1, ..\<close> up to \<open>n\<close> elements, then
  \<open>while (a.size() > k) a.pop_back()\<close>.
\<close>

fun push_upto :: "nat \<Rightarrow> nat \<Rightarrow> nat ChunkedArray \<Rightarrow> nat ChunkedArray" where
  "push_upto cs 0 a = a"
| "push_upto cs (Suc n) a = push_back cs n (push_upto cs n a)"

function pop_while_above :: "nat \<Rightarrow> nat \<Rightarrow> 'a ChunkedArray \<Rightarrow> 'a ChunkedArray option" where
  "pop_while_above cs k a =
     (if size_ca a > k
      then (case pop_back cs a of None \<Rightarrow> None | Some a' \<Rightarrow> pop_while_above cs k a')
      else Some a)"
  by pat_completeness auto
termination
  by (relation "measure (\<lambda>(cs, k, a). elemCount a)")
     (auto simp: pop_back_def update_write_ptr_def destroy_at_def size_ca_def Let_def
           split: if_splits)

declare pop_while_above.simps [simp del]


section \<open>Entity handles (Entable.hpp)\<close>

text \<open>\<open>struct Entity\<close> wraps one \<open>uint32_t\<close>; the model uses the 32-bit word itself.\<close>

type_synonym u32 = "32 word"
type_synonym Entity = u32

definition INDEX_BITS :: nat where
  "INDEX_BITS = 20"

definition VERSION_BITS :: nat where
  "VERSION_BITS = 4 * 8 - INDEX_BITS"

definition INDEX_MASK :: u32 where
  "INDEX_MASK = push_bit INDEX_BITS 1 - 1"

definition VERSION_MASK :: u32 where
  "VERSION_MASK = push_bit VERSION_BITS 1 - 1"

definition INVALID_INDEX :: u32 where
  "INVALID_INDEX = INDEX_MASK"

definition NullEntity :: Entity where
  "NullEntity = - 1"

definition IsNullEntity :: "Entity \<Rightarrow> bool" where
  "IsNullEntity entity = (entity = NullEntity)"

definition EntityToIndex :: "Entity \<Rightarrow> u32" where
  "EntityToIndex entity = entity AND INDEX_MASK"

definition EntityToVersion :: "Entity \<Rightarrow> u32" where
  "EntityToVersion entity = drop_bit INDEX_BITS entity AND VERSION_MASK"

definition ComposeEntity :: "u32 \<Rightarrow> u32 \<Rightarrow> Entity" where
  "ComposeEntity index version = push_bit INDEX_BITS version OR (index AND INDEX_MASK)"

definition NextEntityVersion :: "Entity \<Rightarrow> u32" where
  "NextEntityVersion entity =
     (if IsNullEntity entity then EntityToVersion entity
      else (EntityToVersion entity + 1) AND VERSION_MASK)"

section \<open>Storage selection\<close>

text \<open>
  \<open>std::conditional_t<IsContiguous, std::vector<T>, ChunkedArray<T, CHUNK_SIZE>>\<close>: a
  container of the registry is a \<open>std::vector\<close> (a list) when \<open>CHUNK_SIZE == 0\<close> and a
  \<open>ChunkedArray\<close> otherwise. The functions below are the members the registry calls, on
  either alternative. A read or an assignment through \<open>operator[]\<close> outside the vector's
  size, or on a slot of a chunked array that holds no live element, and \<open>pop_back\<close> on an
  empty container, are undefined in the source and \<open>None\<close> here.
\<close>

datatype 'a container = Vec "'a list" | Chunked "'a ChunkedArray"

definition IsContiguous :: "nat \<Rightarrow> bool" where
  "IsContiguous cs = (cs = 0)"

definition container_new :: "nat \<Rightarrow> 'a container" where
  "container_new cs = (if IsContiguous cs then Vec [] else Chunked ChunkedArray_new)"

fun c_size :: "'a container \<Rightarrow> nat" where
  "c_size (Vec xs) = length xs"
| "c_size (Chunked a) = size_ca a"

fun c_get :: "nat \<Rightarrow> 'a container \<Rightarrow> nat \<Rightarrow> 'a option" where
  "c_get cs (Vec xs) i = (if i < length xs then Some (xs ! i) else None)"
| "c_get cs (Chunked a) i = subscript cs a i"

fun c_put :: "nat \<Rightarrow> nat \<Rightarrow> 'a \<Rightarrow> 'a container \<Rightarrow> 'a container option" where
  "c_put cs i v (Vec xs) = (if i < length xs then Some (Vec (xs[i := v])) else None)"
| "c_put cs i v (Chunked a) = map_option Chunked (subscript_assign cs i v a)"

fun c_emplace_back :: "nat \<Rightarrow> 'a \<Rightarrow> 'a container \<Rightarrow> 'a container" where
  "c_emplace_back cs v (Vec xs) = Vec (xs @ [v])"
| "c_emplace_back cs v (Chunked a) = Chunked (emplace_back cs v a)"

fun c_pop_back :: "nat \<Rightarrow> 'a container \<Rightarrow> 'a container option" where
  "c_pop_back cs (Vec xs) = (if xs = [] then None else Some (Vec (butlast xs)))"
| "c_pop_back cs (Chunked a) = map_option Chunked (pop_back cs a)"

fun c_clear :: "nat \<Rightarrow> 'a container \<Rightarrow> 'a container" where
  "c_clear cs (Vec xs) = Vec []"
| "c_clear cs (Chunked a) = Chunked (clear cs a)"

section \<open>ComponentStorage (Entable.hpp)\<close>

text \<open>
  The storages of a registry hold values of one type \<open>'v\<close> (the component types of the
  source, put together); \<open>dflt\<close> is the value-initialised component that
  \<open>data.emplace_back()\<close> constructs. New entries of \<open>indexToSlot\<close> are written before they are
  read; they are \<open>0\<close> in the model.
\<close>

record 'v ComponentStorage =
  data :: "'v container"
  slotToEntity :: "Entity container"
  indexToSlot :: "u32 container"

definition ComponentStorage_new :: "nat \<Rightarrow> 'v ComponentStorage" where
  "ComponentStorage_new cs =
     \<lparr>data = container_new cs, slotToEntity = container_new cs, indexToSlot = container_new cs\<rparr>"

fun EnsureSparseSlot :: "nat \<Rightarrow> u32 \<Rightarrow> u32 container \<Rightarrow> u32 container" where
  "EnsureSparseSlot cs entityIndex (Vec xs) =
     (if length xs \<le> unat entityIndex then Vec (vector_resize (unat entityIndex + 1) 0 xs)
      else Vec xs)"
| "EnsureSparseSlot cs entityIndex (Chunked a) =
     Chunked (ensure_size cs 0 (unat entityIndex + 1) a)"

definition Init :: "nat \<Rightarrow> 'v \<Rightarrow> u32 \<Rightarrow> Entity \<Rightarrow> 'v ComponentStorage \<Rightarrow> 'v ComponentStorage option" where
  "Init cs dflt entityIndex entity s =
     (let slot = c_size (data s);
          d = c_emplace_back cs dflt (data s);
          ste = c_emplace_back cs entity (slotToEntity s);
          its = EnsureSparseSlot cs entityIndex (indexToSlot s)
      in case c_put cs (unat entityIndex) (of_nat slot) its of
           None \<Rightarrow> None
         | Some its' \<Rightarrow> Some \<lparr>data = d, slotToEntity = ste, indexToSlot = its'\<rparr>)"

text \<open>The swap-with-last of \<open>Kill\<close>, taken when \<open>slot != last\<close>.\<close>

definition move_last_into :: "nat \<Rightarrow> nat \<Rightarrow> nat \<Rightarrow> 'v ComponentStorage \<Rightarrow> 'v ComponentStorage option" where
  "move_last_into cs slot lastSlot s =
     (case c_get cs (data s) lastSlot of None \<Rightarrow> None | Some v \<Rightarrow>
      case c_put cs slot v (data s) of None \<Rightarrow> None | Some d \<Rightarrow>
      case c_get cs (slotToEntity s) lastSlot of None \<Rightarrow> None | Some movedEntity \<Rightarrow>
      case c_put cs slot movedEntity (slotToEntity s) of None \<Rightarrow> None | Some ste \<Rightarrow>
      case c_put cs (unat (EntityToIndex movedEntity)) (of_nat slot) (indexToSlot s) of
        None \<Rightarrow> None
      | Some its \<Rightarrow> Some \<lparr>data = d, slotToEntity = ste, indexToSlot = its\<rparr>)"

definition Kill :: "nat \<Rightarrow> u32 \<Rightarrow> 'v ComponentStorage \<Rightarrow> 'v ComponentStorage option" where
  "Kill cs entityIndex s =
     (case c_get cs (indexToSlot s) (unat entityIndex) of None \<Rightarrow> None | Some slotWord \<Rightarrow>
      let slot = unat slotWord;
          lastSlot = size_t_sub (c_size (data s)) 1
      in case (if slot \<noteq> lastSlot then move_last_into cs slot lastSlot s else Some s) of
           None \<Rightarrow> None
         | Some s1 \<Rightarrow>
             (case c_pop_back cs (data s1) of None \<Rightarrow> None | Some d \<Rightarrow>
              case c_pop_back cs (slotToEntity s1) of None \<Rightarrow> None | Some ste \<Rightarrow>
              Some (s1\<lparr>data := d, slotToEntity := ste\<rparr>)))"

definition Set_storage :: "nat \<Rightarrow> u32 \<Rightarrow> 'v \<Rightarrow> 'v ComponentStorage \<Rightarrow> 'v ComponentStorage option" where
  "Set_storage cs entityIndex v s =
     (case c_get cs (indexToSlot s) (unat entityIndex) of None \<Rightarrow> None | Some slotWord \<Rightarrow>
      case c_put cs (unat slotWord) v (data s) of None \<Rightarrow> None
      | Some d \<Rightarrow> Some (s\<lparr>data := d\<rparr>))"


definition Clear_storage :: "nat \<Rightarrow> 'v ComponentStorage \<Rightarrow> 'v ComponentStorage" where
  "Clear_storage cs s =
     \<lparr>data = c_clear cs (data s), slotToEntity = c_clear cs (slotToEntity s),
      indexToSlot = c_clear cs (indexToSlot s)\<rparr>"

section \<open>Registry (Entable.hpp)\<close>

text \<open>
  \<open>storages\<close> is the tuple of component storages, one per declared component type; a
  component type is addressed by its position in the tuple. Every exception of the source is
  a \<open>std::runtime_error\<close>; the constructors of \<open>registry_error\<close> are its messages, and
  \<open>UndefinedBehaviour\<close> is an undefined container access (see above).

  An operation returns its result together with the registry it leaves: \<open>Inr\<close> with the
  returned value, or \<open>Inl\<close> with the exception and the registry as it is when the exception
  is thrown. (After \<open>UndefinedBehaviour\<close> the registry component has no meaning.)
\<close>

datatype registry_error =
    NullEntityError | OutOfBoundsError | StaleEntityError | TooManyEntities | UndefinedBehaviour

record 'v Registry =
  entities :: "Entity container"
  fNext :: u32
  fSize :: u32
  storages :: "'v ComponentStorage list"

definition Registry_new :: "nat \<Rightarrow> nat \<Rightarrow> 'v Registry" where
  "Registry_new cs numComponents =
     \<lparr>entities = container_new cs, fNext = INVALID_INDEX, fSize = 0,
      storages = replicate numComponents (ComponentStorage_new cs)\<rparr>"

text \<open>\<open>for_each_tuple\<close>: the function applied to every storage, in order.\<close>

fun for_each_tuple :: "('s \<Rightarrow> 's option) \<Rightarrow> 's list \<Rightarrow> 's list option" where
  "for_each_tuple f [] = Some []"
| "for_each_tuple f (s # ss) =
     (case f s of None \<Rightarrow> None | Some s' \<Rightarrow>
      case for_each_tuple f ss of None \<Rightarrow> None | Some ss' \<Rightarrow> Some (s' # ss'))"

definition CheckEntity :: "nat \<Rightarrow> 'v Registry \<Rightarrow> Entity \<Rightarrow> registry_error option" where
  "CheckEntity cs r entity =
     (if IsNullEntity entity then Some NullEntityError
      else let i = EntityToIndex entity in
        if unat i \<ge> c_size (entities r) then Some OutOfBoundsError
        else case c_get cs (entities r) (unat i) of
               None \<Rightarrow> Some UndefinedBehaviour
             | Some x \<Rightarrow> if x \<noteq> entity then Some StaleEntityError else None)"

definition IsValidEntity :: "nat \<Rightarrow> 'v Registry \<Rightarrow> Entity \<Rightarrow> bool" where
  "IsValidEntity cs r entity =
     (if IsNullEntity entity then False
      else let i = EntityToIndex entity in
        if unat i \<ge> c_size (entities r) then False
        else c_get cs (entities r) (unat i) = Some entity)"

definition CreateEntity :: "nat \<Rightarrow> 'v \<Rightarrow> 'v Registry \<Rightarrow> (registry_error + Entity) \<times> 'v Registry" where
  "CreateEntity cs dflt r =
     (if fSize r > 0
      then let i = fNext r in
        case c_get cs (entities r) (unat i) of None \<Rightarrow> (Inl UndefinedBehaviour, r) | Some head \<Rightarrow>
        let v = EntityToVersion head in
        case c_put cs (unat i) (ComposeEntity i v) (entities r) of
          None \<Rightarrow> (Inl UndefinedBehaviour, r)
        | Some ents \<Rightarrow>
            let entity = ComposeEntity i v in
            (case for_each_tuple (Init cs dflt i entity) (storages r) of
               None \<Rightarrow> (Inl UndefinedBehaviour, r)
             | Some ss \<Rightarrow>
                 (Inr entity, r\<lparr>entities := ents, fNext := EntityToIndex head,
                                 fSize := fSize r - 1, storages := ss\<rparr>))
      else if c_size (entities r) \<ge> unat INVALID_INDEX then (Inl TooManyEntities, r)
      else let entity = ComposeEntity (of_nat (c_size (entities r))) 0;
               ents = c_emplace_back cs entity (entities r)
           in case for_each_tuple (Init cs dflt (EntityToIndex entity) entity) (storages r) of
                None \<Rightarrow> (Inl UndefinedBehaviour, r)
              | Some ss \<Rightarrow> (Inr entity, r\<lparr>entities := ents, storages := ss\<rparr>))"

definition DestroyEntity :: "nat \<Rightarrow> Entity \<Rightarrow> 'v Registry \<Rightarrow> (registry_error + unit) \<times> 'v Registry" where
  "DestroyEntity cs entity r =
     (case CheckEntity cs r entity of Some err \<Rightarrow> (Inl err, r) | None \<Rightarrow>
      let index = EntityToIndex entity in
      case for_each_tuple (Kill cs index) (storages r) of
        None \<Rightarrow> (Inl UndefinedBehaviour, r)
      | Some ss \<Rightarrow>
          (case c_get cs (entities r) (unat index) of
             None \<Rightarrow> (Inl UndefinedBehaviour, r)
           | Some cur \<Rightarrow>
               let nextVer = NextEntityVersion cur in
               case c_put cs (unat index) (ComposeEntity (fNext r) nextVer) (entities r) of
                 None \<Rightarrow> (Inl UndefinedBehaviour, r)
               | Some ents \<Rightarrow>
                   (Inr (), r\<lparr>entities := ents, fNext := index, fSize := fSize r + 1,
                              storages := ss\<rparr>)))"

text \<open>
  \<open>Set<C>\<close> and \<open>SetSafe<C>\<close>; \<open>k\<close> is the position of the component type \<open>C\<close> in the tuple (the
  source rejects a type that is not in the tuple at compile time).
\<close>

definition Set_component :: "nat \<Rightarrow> nat \<Rightarrow> Entity \<Rightarrow> 'v \<Rightarrow> 'v Registry \<Rightarrow> (registry_error + unit) \<times> 'v Registry" where
  "Set_component cs k entity v r =
     (if k \<ge> length (storages r) then (Inl UndefinedBehaviour, r)
      else case Set_storage cs (EntityToIndex entity) v (storages r ! k) of
             None \<Rightarrow> (Inl UndefinedBehaviour, r)
           | Some s \<Rightarrow> (Inr (), r\<lparr>storages := (storages r)[k := s]\<rparr>))"

definition SetSafe :: "nat \<Rightarrow> nat \<Rightarrow> Entity \<Rightarrow> 'v \<Rightarrow> 'v Registry \<Rightarrow> (registry_error + unit) \<times> 'v Registry" where
  "SetSafe cs k entity v r =
     (case CheckEntity cs r entity of Some err \<Rightarrow> (Inl err, r)
      | None \<Rightarrow> Set_component cs k entity v r)"

definition Clear_registry :: "nat \<Rightarrow> 'v Registry \<Rightarrow> 'v Registry" where
  "Clear_registry cs r =
     \<lparr>entities = c_clear cs (entities r), fNext = INVALID_INDEX, fSize = 0,
      storages = map (Clear_storage cs) (storages r)\<rparr>"


text \<open>
  The states of a registry: the one the constructor builds, for a chunk size the
  \<open>static_assert\<close>s accept and at least one component type, and every state an operation
  leaves, whether it returns or throws.
\<close>

inductive reachable :: "nat \<Rightarrow> 'v \<Rightarrow> 'v Registry \<Rightarrow> bool" for cs :: nat and dflt :: 'v where
  reach_new:
    "IsContiguous cs \<or> has_single_bit cs \<Longrightarrow> 0 < n \<Longrightarrow> reachable cs dflt (Registry_new cs n)"
| reach_create:
    "reachable cs dflt r \<Longrightarrow> CreateEntity cs dflt r = (res, r') \<Longrightarrow>
     res \<noteq> Inl UndefinedBehaviour \<Longrightarrow> reachable cs dflt r'"
| reach_destroy:
    "reachable cs dflt r \<Longrightarrow> DestroyEntity cs e r = (res, r') \<Longrightarrow>
     res \<noteq> Inl UndefinedBehaviour \<Longrightarrow> reachable cs dflt r'"
| reach_set:
    "reachable cs dflt r \<Longrightarrow> Set_component cs k e v r = (res, r') \<Longrightarrow>
     res \<noteq> Inl UndefinedBehaviour \<Longrightarrow> reachable cs dflt r'"
| reach_set_safe:
    "reachable cs dflt r \<Longrightarrow> SetSafe cs k e v r = (res, r') \<Longrightarrow>
     res \<noteq> Inl UndefinedBehaviour \<Longrightarrow> reachable cs dflt r'"
| reach_clear:
    "reachable cs dflt r \<Longrightarrow> reachable cs dflt (Clear_registry cs r)"


section \<open>Invariants and abstraction of the chunked array\<close>

text \<open>Every chunk is an allocation of \<open>CHUNK_SIZE\<close> slots.\<close>

definition chunks_ok :: "nat \<Rightarrow> 'a ChunkedArray \<Rightarrow> bool" where
  "chunks_ok cs a = (\<forall>c\<in>set (chunks a). length c = cs)"

text \<open>The elements at the logical indices below \<open>elemCount\<close>, in index order.\<close>

definition ca_list :: "'a ChunkedArray \<Rightarrow> 'a list" where
  "ca_list a = map the (take (elemCount a) (concat (chunks a)))"

text \<open>
  The lifetime invariant of the class: the slots at the logical indices below \<open>elemCount\<close>
  hold live elements, every other slot of an allocated chunk holds none.
\<close>

definition live_prefix :: "'a ChunkedArray \<Rightarrow> bool" where
  "live_prefix a =
     (elemCount a \<le> length (concat (chunks a)) \<and>
      concat (chunks a) =
        map Some (ca_list a) @ replicate (length (concat (chunks a)) - elemCount a) None)"

text \<open>
  The write cursor is where \<open>update_write_ptr\<close> would put it, or at the end of the last
  allocated chunk, which is full.
\<close>

definition cursor_ok :: "nat \<Rightarrow> 'a ChunkedArray \<Rightarrow> bool" where
  "cursor_ok cs a =
     ((m_writePtr a = m_writePtr (update_write_ptr cs a) \<and>
       m_chunkEnd a = m_chunkEnd (update_write_ptr cs a)) \<or>
      (chunks a \<noteq> [] \<and> elemCount a = cs * length (chunks a) \<and>
       m_writePtr a = Some (length (chunks a) - 1, cs) \<and>
       m_chunkEnd a = Some (length (chunks a) - 1, cs)))"

definition ca_good :: "nat \<Rightarrow> 'a ChunkedArray \<Rightarrow> bool" where
  "ca_good cs a = (chunks_ok cs a \<and> live_prefix a \<and> cursor_ok cs a)"

text \<open>
  No allocated chunk lies beyond the one that holds the last element: fewer than
  \<open>CHUNK_SIZE\<close> slots are free.
\<close>

definition ca_tight :: "nat \<Rightarrow> 'a ChunkedArray \<Rightarrow> bool" where
  "ca_tight cs a = (ca_good cs a \<and> cs * length (chunks a) < elemCount a + cs)"

section \<open>Invariants of the registry\<close>

text \<open>The entity table and the free list, as the registry's invariant sees them.\<close>

fun c_list :: "'a container \<Rightarrow> 'a list" where
  "c_list (Vec xs) = xs"
| "c_list (Chunked a) = ca_list a"

fun c_inv :: "nat \<Rightarrow> 'a container \<Rightarrow> bool" where
  "c_inv cs (Vec xs) = True"
| "c_inv cs (Chunked a) = (has_single_bit cs \<and> ca_tight cs a)"

text \<open>
  The indices on the free list: \<open>n\<close> steps from \<open>nxt\<close> along the index bits of the freed
  slots; \<open>free_end\<close> is the link stored in the last of them.
\<close>

fun free_list :: "nat \<Rightarrow> u32 \<Rightarrow> Entity list \<Rightarrow> u32 list" where
  "free_list 0 nxt ents = []"
| "free_list (Suc n) nxt ents = nxt # free_list n (EntityToIndex (ents ! unat nxt)) ents"

fun free_end :: "nat \<Rightarrow> u32 \<Rightarrow> Entity list \<Rightarrow> u32" where
  "free_end 0 nxt ents = nxt"
| "free_end (Suc n) nxt ents = free_end n (EntityToIndex (ents ! unat nxt)) ents"

definition free_list_ok :: "'v Registry \<Rightarrow> bool" where
  "free_list_ok r =
     (let ents = c_list (entities r);
          fl = free_list (unat (fSize r)) (fNext r) ents
      in distinct fl \<and>
         (\<forall>j\<in>set fl. unat j < length ents \<and> EntityToIndex (ents ! unat j) \<noteq> j) \<and>
         free_end (unat (fSize r)) (fNext r) ents = INVALID_INDEX)"

definition same_index :: "'v ComponentStorage \<Rightarrow> 'v ComponentStorage \<Rightarrow> bool" where
  "same_index s1 s2 =
     (slotToEntity s1 = slotToEntity s2 \<and> indexToSlot s1 = indexToSlot s2 \<and>
      c_size (data s1) = c_size (data s2))"

definition storages_aligned :: "'v Registry \<Rightarrow> bool" where
  "storages_aligned r =
     (storages r \<noteq> [] \<and>
      (\<forall>s1\<in>set (storages r). \<forall>s2\<in>set (storages r). same_index s1 s2) \<and>
      (\<forall>s\<in>set (storages r).
         c_size (slotToEntity s) = c_size (data s) \<and>
         c_size (data s) + unat (fSize r) = c_size (entities r)))"

definition registry_inv :: "nat \<Rightarrow> 'v Registry \<Rightarrow> bool" where
  "registry_inv cs r =
     (c_inv cs (entities r) \<and>
      c_size (entities r) \<le> unat INDEX_MASK \<and>
      free_list_ok r \<and> storages_aligned r)"

section \<open>Well-formed states of the chunked array and the effect of destroying a range\<close>

text \<open>
  What holds in every state of a chunked array, also after the operations that leave the
  lifetime invariant: chunks have \<open>CHUNK_SIZE\<close> slots, the size is at most the allocated
  capacity, and the write cursor is null with no capacity left, or points into an allocated
  chunk, at or after the slot of logical index \<open>elemCount\<close>.
\<close>

definition ca_wf :: "nat \<Rightarrow> 'a ChunkedArray \<Rightarrow> bool" where
  "ca_wf cs a =
     (chunks_ok cs a \<and> elemCount a \<le> cs * length (chunks a) \<and>
      (case m_writePtr a of
         None \<Rightarrow> m_chunkEnd a = None \<and> elemCount a = cs * length (chunks a)
       | Some (ci, off) \<Rightarrow>
           m_chunkEnd a = Some (ci, cs) \<and> ci < length (chunks a) \<and> off \<le> cs \<and>
           elemCount a \<le> ci * cs + off))"

text \<open>
  The slots of all chunks, in logical index order, after the objects at the indices
  \<open>x..<y\<close> have been destroyed; and the number of slots at these indices that hold no live
  element.
\<close>

definition kill_range :: "nat \<Rightarrow> nat \<Rightarrow> 'a option list \<Rightarrow> 'a option list" where
  "kill_range x y F = take x F @ replicate (y - x) None @ drop y F"

definition dead_in :: "nat \<Rightarrow> nat \<Rightarrow> 'a option list \<Rightarrow> nat" where
  "dead_in x y F = length (filter (\<lambda>s. s = None) (drop x (take y F)))"

text \<open>
  \<open>destroys cs x y a a'\<close>: \<open>a'\<close> is \<open>a\<close> after one destructor call on each slot at the logical
  indices \<open>x..<y\<close>, and nothing else.
\<close>

definition destroys :: "nat \<Rightarrow> nat \<Rightarrow> nat \<Rightarrow> 'a ChunkedArray \<Rightarrow> 'a ChunkedArray \<Rightarrow> bool" where
  "destroys cs x y a a' =
     (chunks_ok cs a' \<and> length (chunks a') = length (chunks a) \<and>
      elemCount a' = elemCount a \<and> m_writePtr a' = m_writePtr a \<and>
      m_chunkEnd a' = m_chunkEnd a \<and>
      concat (chunks a') = kill_range x y (concat (chunks a)) \<and>
      dead_destroys a' = dead_destroys a + dead_in x y (concat (chunks a)))"

section \<open>Example states\<close>

text \<open>
  The states of a registry with two component types after creating one entity, after
  destroying it, and after creating an entity again (contiguous storage), after setting the
  second component of the first entity to 5, and after creating one entity with chunks of two
  elements.
\<close>


definition storage_one :: "nat ComponentStorage" where
  "storage_one = \<lparr>data = Vec [0], slotToEntity = Vec [0], indexToSlot = Vec [0]\<rparr>"

definition storage_none :: "nat ComponentStorage" where
  "storage_none = \<lparr>data = Vec [], slotToEntity = Vec [], indexToSlot = Vec [0]\<rparr>"

definition storage_again :: "nat ComponentStorage" where
  "storage_again = \<lparr>data = Vec [0], slotToEntity = Vec [1048576], indexToSlot = Vec [0]\<rparr>"

definition registry_one :: "nat Registry" where
  "registry_one =
     \<lparr>entities = Vec [0], fNext = 1048575, fSize = 0, storages = [storage_one, storage_one]\<rparr>"

definition registry_freed :: "nat Registry" where
  "registry_freed =
     \<lparr>entities = Vec [2097151], fNext = 0, fSize = 1, storages = [storage_none, storage_none]\<rparr>"

definition registry_again :: "nat Registry" where
  "registry_again =
     \<lparr>entities = Vec [1048576], fNext = 1048575, fSize = 0,
      storages = [storage_again, storage_again]\<rparr>"

definition chunked_one :: "nat ChunkedArray" where
  "chunked_one =
     \<lparr>chunks = [[Some 0, None]], elemCount = 1, m_writePtr = Some (0, 1),
      m_chunkEnd = Some (0, 2), dead_destroys = 0\<rparr>"

definition chunked_handle :: "Entity ChunkedArray" where
  "chunked_handle =
     \<lparr>chunks = [[Some 0, None]], elemCount = 1, m_writePtr = Some (0, 1),
      m_chunkEnd = Some (0, 2), dead_destroys = 0\<rparr>"

definition chunked_registry_one :: "nat Registry" where
  "chunked_registry_one =
     \<lparr>entities = Chunked chunked_handle, fNext = 1048575, fSize = 0,
      storages = replicate 2
        \<lparr>data = Chunked chunked_one, slotToEntity = Chunked chunked_handle,
         indexToSlot = Chunked chunked_handle\<rparr>\<rparr>"




section \<open>Index arithmetic\<close>

lemma has_single_bit_pos: "has_single_bit cs \<Longrightarrow> 0 < cs"
  by (auto simp: has_single_bit_def)

lemma countr_zero_bits_pow: "k < w \<Longrightarrow> countr_zero_bits w (2 ^ k) = k"
proof (induction w arbitrary: k)
  case 0 then show ?case by simp
next
  case (Suc w)
  show ?case
  proof (cases k)
    case 0 then show ?thesis by simp
  next
    case (Suc j)
    with Suc.prems have "j < w" by simp
    with Suc.IH Suc show ?thesis by simp
  qed
qed

lemma LOG2_pow: "k < 64 \<Longrightarrow> LOG2 (2 ^ k) = k"
  by (simp add: LOG2_def countr_zero_def countr_zero_bits_pow)

lemma ChunkIndex_div [simp]: "has_single_bit cs \<Longrightarrow> ChunkIndex cs g = g div cs"
  by (auto simp: has_single_bit_def ChunkIndex_def LOG2_pow drop_bit_eq_div)

lemma OffsetIndex_mod [simp]: "has_single_bit cs \<Longrightarrow> OffsetIndex cs g = g mod cs"
proof -
  assume "has_single_bit cs"
  then obtain k where cs: "cs = 2 ^ k" by (auto simp: has_single_bit_def)
  have "g AND (2 ^ k - 1) = g AND mask k" by (simp only: mask_eq_exp_minus_1)
  also have "\<dots> = take_bit k g" by (simp only: take_bit_eq_mask)
  also have "\<dots> = g mod 2 ^ k" by (simp only: take_bit_eq_mod)
  finally show ?thesis by (simp only: OffsetIndex_def MASK_def cs)
qed

lemma length_concat_uniform:
  "\<forall>c\<in>set chs. length c = n \<Longrightarrow> length (concat chs) = n * length chs"
  by (induction chs) auto

lemma nth_concat_uniform:
  "\<forall>c\<in>set chs. length c = n \<Longrightarrow> ci < length chs \<Longrightarrow> off < n \<Longrightarrow>
   concat chs ! (ci * n + off) = chs ! ci ! off"
proof (induction chs arbitrary: ci)
  case Nil then show ?case by simp
next
  case (Cons c chs)
  show ?case
  proof (cases ci)
    case 0 with Cons.prems show ?thesis by (simp add: nth_append)
  next
    case (Suc j)
    with Cons.prems have "concat chs ! (j * n + off) = chs ! j ! off"
      by (intro Cons.IH) auto
    with Suc Cons.prems show ?thesis by (simp add: nth_append)
  qed
qed

lemma concat_update_uniform:
  "\<forall>c\<in>set chs. length c = n \<Longrightarrow> ci < length chs \<Longrightarrow> off < n \<Longrightarrow>
   concat (chs[ci := (chs ! ci)[off := x]]) = (concat chs)[ci * n + off := x]"
proof (induction chs arbitrary: ci)
  case Nil then show ?case by simp
next
  case (Cons c chs)
  show ?case
  proof (cases ci)
    case 0 with Cons.prems show ?thesis by (simp add: list_update_append)
  next
    case (Suc j)
    with Cons.prems have "concat (chs[j := (chs ! j)[off := x]]) = (concat chs)[j * n + off := x]"
      by (intro Cons.IH) auto
    with Suc Cons.prems show ?thesis by (simp add: list_update_append)
  qed
qed

subsection \<open>The slots of the chunks as one list\<close>

lemma div_lt_chunks: "0 < cs \<Longrightarrow> (i::nat) < cs * n \<Longrightarrow> i div cs < n"
  by (simp add: less_mult_imp_div_less mult.commute)

lemma get_slot_flat:
  assumes "\<forall>c\<in>set chs. length c = cs" "0 < cs" "i < cs * length chs"
  shows "get_slot chs (i div cs) (i mod cs) = concat chs ! i"
proof -
  have ci: "i div cs < length chs" using assms by (simp add: div_lt_chunks)
  then have "length (chs ! (i div cs)) = cs" using assms(1) by simp
  moreover have "concat chs ! ((i div cs) * cs + i mod cs) = chs ! (i div cs) ! (i mod cs)"
    using assms ci by (intro nth_concat_uniform) auto
  ultimately show ?thesis using ci assms(2) by (simp add: get_slot_def)
qed

lemma set_slot_flat:
  assumes "\<forall>c\<in>set chs. length c = cs" "0 < cs" "i < cs * length chs"
  shows "concat (set_slot (i div cs) (i mod cs) x chs) = (concat chs)[i := x]"
proof -
  have ci: "i div cs < length chs" using assms by (simp add: div_lt_chunks)
  have "concat (chs[i div cs := (chs ! (i div cs))[i mod cs := x]]) =
        (concat chs)[(i div cs) * cs + i mod cs := x]"
    using assms ci by (intro concat_update_uniform) auto
  then show ?thesis using ci by (simp add: set_slot_def)
qed

lemma set_slot_uniform:
  "\<forall>c\<in>set chs. length c = cs \<Longrightarrow> \<forall>c\<in>set (set_slot ci off x chs). length c = cs"
  by (auto simp: set_slot_def set_conv_nth nth_list_update)

lemma length_set_slot [simp]: "length (set_slot ci off x chs) = length chs"
  by (simp add: set_slot_def)


section \<open>The chunked array under its invariant\<close>


lemma live_prefixI:
  assumes "concat (chunks a) = map Some xs @ replicate k None" "elemCount a = length xs"
  shows "live_prefix a" and "ca_list a = xs"
proof -
  show l: "ca_list a = xs" using assms by (simp add: ca_list_def comp_def)
  have "length (concat (chunks a)) = length xs + k" using assms(1) by simp
  then show "live_prefix a" using assms l by (simp add: live_prefix_def)
qed

lemma length_ca_list: "live_prefix a \<Longrightarrow> length (ca_list a) = elemCount a"
  by (simp add: live_prefix_def ca_list_def)

lemma live_prefix_flat:
  "live_prefix a \<Longrightarrow>
   concat (chunks a) = map Some (ca_list a) @ replicate (length (concat (chunks a)) - elemCount a) None"
  by (simp add: live_prefix_def)

lemma good_bound:
  "ca_good cs a \<Longrightarrow> elemCount a \<le> cs * length (chunks a)"
  using length_concat_uniform [of "chunks a" cs]
  by (simp add: ca_good_def chunks_ok_def live_prefix_def)

lemma div_ge_imp_eq:
  assumes "0 < cs" "(n::nat) \<le> cs * L" "L \<le> n div cs"
  shows "n = cs * L"
proof -
  have "L * cs \<le> (n div cs) * cs" using assms(3) by simp
  also have "\<dots> \<le> n" by simp
  finally show ?thesis using assms(2) by (simp add: mult.commute)
qed

lemma emplace_back_canon:
  assumes cs: "has_single_bit cs" and good: "ca_good cs a"
  shows "emplace_back cs v a =
           a\<lparr>chunks := set_slot (elemCount a div cs) (elemCount a mod cs) (Some v)
                         (if elemCount a = cs * length (chunks a)
                          then chunks a @ [make_chunk cs] else chunks a),
             elemCount := elemCount a + 1,
             m_writePtr := Some (elemCount a div cs, elemCount a mod cs + 1),
             m_chunkEnd := Some (elemCount a div cs, cs)\<rparr>"
proof -
  have pos: "0 < cs" using cs by (rule has_single_bit_pos)
  have bound: "elemCount a \<le> cs * length (chunks a)" using good by (rule good_bound)
  from good have "cursor_ok cs a" by (simp add: ca_good_def)
  then consider
      (synced) "m_writePtr a = m_writePtr (update_write_ptr cs a)"
               "m_chunkEnd a = m_chunkEnd (update_write_ptr cs a)"
    | (full) "chunks a \<noteq> []" "elemCount a = cs * length (chunks a)"
             "m_writePtr a = Some (length (chunks a) - 1, cs)"
             "m_chunkEnd a = Some (length (chunks a) - 1, cs)"
    by (auto simp: cursor_ok_def)
  then show ?thesis
  proof cases
    case full
    then show ?thesis using pos
      by (simp add: emplace_back_def allocate_new_chunk_def construct_at_def ptr_add_def)
  next
    case synced
    show ?thesis
    proof (cases "elemCount a div cs < length (chunks a)")
      case True
      then have ne: "elemCount a \<noteq> cs * length (chunks a)" using pos by auto
      have nonempty: "chunks a \<noteq> []" using True by auto
      have wp: "m_writePtr a = Some (elemCount a div cs, elemCount a mod cs)"
       and ce: "m_chunkEnd a = Some (elemCount a div cs, cs)"
        using synced True nonempty cs by (simp_all add: update_write_ptr_def Let_def)
      have "elemCount a mod cs \<noteq> cs" using pos by (metis mod_less_divisor nat_neq_iff)
      then show ?thesis using wp ce ne
        by (simp add: emplace_back_def construct_at_def ptr_add_def)
    next
      case False
      then have eq: "elemCount a = cs * length (chunks a)"
        using div_ge_imp_eq [OF pos bound] by simp
      have wp: "m_writePtr a = None" and ce: "m_chunkEnd a = None"
        using synced False cs by (simp_all add: update_write_ptr_def Let_def)
      show ?thesis using wp ce eq pos
        by (simp add: emplace_back_def allocate_new_chunk_def construct_at_def ptr_add_def)
    qed
  qed
qed



lemma emplace_back_fields:
  assumes cs: "has_single_bit cs" and good: "ca_good cs a"
  shows "elemCount (emplace_back cs v a) = elemCount a + 1"
    and "length (chunks (emplace_back cs v a)) =
           (if elemCount a = cs * length (chunks a) then length (chunks a) + 1
            else length (chunks a))"
    and "dead_destroys (emplace_back cs v a) = dead_destroys a"
    and "m_writePtr (emplace_back cs v a) = Some (elemCount a div cs, elemCount a mod cs + 1)"
    and "m_chunkEnd (emplace_back cs v a) = Some (elemCount a div cs, cs)"
  by (simp_all add: emplace_back_canon [OF cs good])

lemma emplace_back_flat:
  assumes cs: "has_single_bit cs" and good: "ca_good cs a"
  shows "chunks_ok cs (emplace_back cs v a)"
    and "concat (chunks (emplace_back cs v a)) =
           (concat (chunks a) @
              (if elemCount a = cs * length (chunks a) then replicate cs None else []))
           [elemCount a := Some v]"
proof -
  let ?chs = "if elemCount a = cs * length (chunks a) then chunks a @ [make_chunk cs] else chunks a"
  have pos: "0 < cs" using cs by (rule has_single_bit_pos)
  have bound: "elemCount a \<le> cs * length (chunks a)" using good by (rule good_bound)
  have uni: "\<forall>c\<in>set ?chs. length c = cs"
    using good by (auto simp: ca_good_def chunks_ok_def make_chunk_def)
  have lt: "elemCount a < cs * length ?chs" using bound pos by auto
  have ch: "chunks (emplace_back cs v a) = set_slot (elemCount a div cs) (elemCount a mod cs) (Some v) ?chs"
    by (simp add: emplace_back_canon [OF cs good])
  show "chunks_ok cs (emplace_back cs v a)"
    unfolding chunks_ok_def ch using uni by (rule set_slot_uniform)
  have "concat (chunks (emplace_back cs v a)) = (concat ?chs)[elemCount a := Some v]"
    unfolding ch using uni pos lt by (rule set_slot_flat)
  then show "concat (chunks (emplace_back cs v a)) =
           (concat (chunks a) @
              (if elemCount a = cs * length (chunks a) then replicate cs None else []))
           [elemCount a := Some v]"
    by (simp add: make_chunk_def)
qed

lemma emplace_back_live:
  assumes cs: "has_single_bit cs" and good: "ca_good cs a"
  shows "live_prefix (emplace_back cs v a)"
    and "ca_list (emplace_back cs v a) = ca_list a @ [v]"
proof -
  let ?a' = "emplace_back cs v a"
  let ?r = "if elemCount a = cs * length (chunks a) then cs else 0"
  let ?k = "length (concat (chunks a)) - elemCount a"
  have pos: "0 < cs" using cs by (rule has_single_bit_pos)
  have bound: "elemCount a \<le> cs * length (chunks a)" using good by (rule good_bound)
  have lp: "live_prefix a" and ok: "chunks_ok cs a" using good by (simp_all add: ca_good_def)
  have len: "length (concat (chunks a)) = cs * length (chunks a)"
    using ok by (simp add: chunks_ok_def length_concat_uniform)
  have lx: "length (ca_list a) = elemCount a" using lp by (rule length_ca_list)
  have kpos: "0 < ?k + ?r" using bound pos len by auto
  have "concat (chunks ?a') =
          (concat (chunks a) @ replicate ?r None)[elemCount a := Some v]"
    using emplace_back_flat(2) [OF cs good, of v] by (simp split: if_splits)
  also have "concat (chunks a) @ replicate ?r None =
          map Some (ca_list a) @ replicate (?k + ?r) None"
    using live_prefix_flat [OF lp] by (simp add: replicate_add)
  also have "(map Some (ca_list a) @ replicate (?k + ?r) None)[elemCount a := Some v] =
          map Some (ca_list a) @ (replicate (?k + ?r) None)[0 := Some v]"
    using lx by (simp add: list_update_append)
  also have "(replicate (?k + ?r) (None :: 'a option))[0 := Some v] = Some v # replicate (?k + ?r - 1) None"
    using kpos by (cases "?k + ?r") simp_all
  finally have flat: "concat (chunks ?a') = map Some (ca_list a @ [v]) @ replicate (?k + ?r - 1) None"
    by simp
  have ec: "elemCount ?a' = length (ca_list a @ [v])"
    using lx emplace_back_fields(1) [OF cs good] by simp
  show "live_prefix ?a'" using flat ec by (rule live_prefixI)
  show "ca_list ?a' = ca_list a @ [v]" using flat ec by (rule live_prefixI)
qed

lemma cursor_ok_update_write_ptr: "cursor_ok cs (update_write_ptr cs a)"
  by (simp add: cursor_ok_def update_write_ptr_def Let_def)

lemma cursor_ok_cong:
  "length (chunks b) = length (chunks a) \<Longrightarrow> elemCount b = elemCount a \<Longrightarrow>
   m_writePtr b = m_writePtr a \<Longrightarrow> m_chunkEnd b = m_chunkEnd a \<Longrightarrow>
   cursor_ok cs b = cursor_ok cs a"
  by (cases "chunks a"; cases "chunks b") (simp_all add: cursor_ok_def update_write_ptr_def Let_def)

lemma tight_full_length:
  assumes "0 < cs" "cs * L < n + cs" "n \<le> cs * L" "n = cs * q"
  shows "L = (q::nat)"
proof -
  have "cs * L < cs * (q + 1)" using assms(2,4) by simp
  then have "L < q + 1" using assms(1) by (simp only: nat_mult_less_cancel1)
  moreover have "cs * q \<le> cs * L" using assms(3,4) by simp
  then have "q \<le> L" using assms(1) by (simp only: nat_mult_le_cancel1)
  ultimately show ?thesis by simp
qed

lemma emplace_back_tight:
  assumes cs: "has_single_bit cs" and tight: "ca_tight cs a"
  shows "ca_tight cs (emplace_back cs v a)"
proof -
  let ?a' = "emplace_back cs v a"
  let ?n = "elemCount a" and ?L = "length (chunks a)"
  have good: "ca_good cs a" and t: "cs * ?L < ?n + cs" using tight by (simp_all add: ca_tight_def)
  have pos: "0 < cs" using cs by (rule has_single_bit_pos)
  have bound: "?n \<le> cs * ?L" using good by (rule good_bound)
  note f = emplace_back_fields [OF cs good, of v]
  have L': "cs * length (chunks ?a') < elemCount ?a' + cs"
    using t f(1,2) by (simp add: algebra_simps)
  have bound': "elemCount ?a' \<le> cs * length (chunks ?a')"
    using bound f(1,2) pos
    by (auto simp: algebra_simps split: if_splits)
  have ne: "chunks ?a' \<noteq> []" using bound' f(1) by auto
  have dm: "cs * (?n div cs) + ?n mod cs = ?n" by simp
  have "cursor_ok cs ?a'"
  proof (cases "?n mod cs + 1 = cs")
    case True
    have "elemCount ?a' = cs * (?n div cs) + (?n mod cs + 1)" using dm f(1) by simp
    also have "\<dots> = cs * (?n div cs + 1)" using True by simp
    finally have n1: "elemCount ?a' = cs * (?n div cs + 1)" .
    have Leq: "length (chunks ?a') = ?n div cs + 1"
      using pos L' bound' n1 by (rule tight_full_length)
    show ?thesis using True Leq n1 ne f(4,5) by (simp add: cursor_ok_def)
  next
    case False
    have "?n mod cs < cs" using pos by simp
    then have lt: "?n mod cs + 1 < cs" using False by simp
    have d: "elemCount ?a' div cs = ?n div cs" and m: "elemCount ?a' mod cs = ?n mod cs + 1"
      using lt f(1) by (simp_all add: div_Suc mod_Suc)
    have "?n < cs * length (chunks ?a')" using bound' f(1) by simp
    then have "?n div cs < length (chunks ?a')" using pos by (simp add: div_lt_chunks)
    then show ?thesis using ne d m f(4,5) cs
      by (simp add: cursor_ok_def update_write_ptr_def Let_def)
  qed
  then show ?thesis
    using emplace_back_flat(1) [OF cs good] emplace_back_live(1) [OF cs good] L'
    by (simp add: ca_tight_def ca_good_def)
qed



lemma good_flat_length:
  "ca_good cs a \<Longrightarrow> length (concat (chunks a)) = cs * length (chunks a)"
  by (simp add: ca_good_def chunks_ok_def length_concat_uniform)

lemma live_bound:
  "chunks_ok cs a \<Longrightarrow> live_prefix a \<Longrightarrow> elemCount a \<le> cs * length (chunks a)"
  using length_concat_uniform [of "chunks a" cs]
  by (simp add: chunks_ok_def live_prefix_def)

lemma subscript_live:
  assumes cs: "has_single_bit cs" and cok: "chunks_ok cs a" and lp: "live_prefix a"
    and i: "i < elemCount a"
  shows "subscript cs a i = Some (ca_list a ! i)"
proof -
  have pos: "0 < cs" using cs by (rule has_single_bit_pos)
  have ok: "\<forall>c\<in>set (chunks a). length c = cs"
    using cok by (simp_all add: chunks_ok_def)
  have lt: "i < cs * length (chunks a)" using i live_bound [OF cok lp] by simp
  have "subscript cs a i = concat (chunks a) ! i"
    using get_slot_flat [OF ok pos lt] cs by (simp add: subscript_def)
  also have "\<dots> = Some (ca_list a ! i)"
    using i length_ca_list [OF lp]
    by (subst live_prefix_flat [OF lp]) (simp add: nth_append)
  finally show ?thesis .
qed

lemma subscript_good:
  "has_single_bit cs \<Longrightarrow> ca_good cs a \<Longrightarrow> i < elemCount a \<Longrightarrow>
   subscript cs a i = Some (ca_list a ! i)"
  by (simp add: ca_good_def subscript_live)

lemma subscript_assign_good:
  assumes cs: "has_single_bit cs" and good: "ca_good cs a" and i: "i < elemCount a"
  obtains a' where "subscript_assign cs i v a = Some a'" "ca_good cs a'"
    "ca_list a' = (ca_list a)[i := v]" "elemCount a' = elemCount a"
    "length (chunks a') = length (chunks a)" "dead_destroys a' = dead_destroys a"
proof -
  let ?a' = "a\<lparr>chunks := set_slot (i div cs) (i mod cs) (Some v) (chunks a)\<rparr>"
  have pos: "0 < cs" using cs by (rule has_single_bit_pos)
  have lp: "live_prefix a" and ok: "\<forall>c\<in>set (chunks a). length c = cs"
    using good by (simp_all add: ca_good_def chunks_ok_def)
  have lt: "i < cs * length (chunks a)" using i good_bound [OF good] by simp
  have lx: "length (ca_list a) = elemCount a" using lp by (rule length_ca_list)
  have eq: "subscript_assign cs i v a = Some ?a'"
    using subscript_good [OF cs good i] cs by (simp add: subscript_assign_def)
  have "concat (chunks ?a') = (concat (chunks a))[i := Some v]"
    using set_slot_flat [OF ok pos lt] by simp
  also have "\<dots> = map Some ((ca_list a)[i := v]) @
      replicate (length (concat (chunks a)) - elemCount a) None"
    using i lx by (subst live_prefix_flat [OF lp]) (simp add: list_update_append map_update)
  finally have flat: "concat (chunks ?a') = map Some ((ca_list a)[i := v]) @
      replicate (length (concat (chunks a)) - elemCount a) None" .
  have ec: "elemCount ?a' = length ((ca_list a)[i := v])" using lx by simp
  have "chunks_ok cs ?a'" using set_slot_uniform [OF ok] by (simp add: chunks_ok_def)
  moreover have "live_prefix ?a'" using flat ec by (rule live_prefixI)
  moreover have "cursor_ok cs ?a' = cursor_ok cs a" by (rule cursor_ok_cong) simp_all
  ultimately have "ca_good cs ?a'" using good by (simp add: ca_good_def)
  moreover have "ca_list ?a' = (ca_list a)[i := v]" using flat ec by (rule live_prefixI)
  ultimately show thesis using eq by (intro that [of ?a']) simp_all
qed

lemma pop_back_good:
  assumes cs: "has_single_bit cs" and good: "ca_good cs a" and n: "0 < elemCount a"
  obtains a' where "pop_back cs a = Some a'" "ca_good cs a'"
    "ca_list a' = butlast (ca_list a)" "elemCount a' = elemCount a - 1"
    "length (chunks a') = length (chunks a)" "dead_destroys a' = dead_destroys a"
proof -
  let ?i = "elemCount a - 1"
  let ?a2 = "a\<lparr>elemCount := ?i, chunks := set_slot (?i div cs) (?i mod cs) None (chunks a)\<rparr>"
  let ?a' = "update_write_ptr cs ?a2"
  have pos: "0 < cs" using cs by (rule has_single_bit_pos)
  have lp: "live_prefix a" and ok: "\<forall>c\<in>set (chunks a). length c = cs"
    using good by (simp_all add: ca_good_def chunks_ok_def)
  have i: "?i < elemCount a" using n by simp
  have lt: "?i < cs * length (chunks a)" using i good_bound [OF good] by simp
  have lx: "length (ca_list a) = elemCount a" using lp by (rule length_ca_list)
  have "get_slot (chunks a) (?i div cs) (?i mod cs) = Some (ca_list a ! ?i)"
    using subscript_good [OF cs good i] cs by (simp add: subscript_def)
  then have eq: "pop_back cs a = Some ?a'"
    using n cs by (simp add: pop_back_def destroy_at_def Let_def)
  have sel: "chunks ?a' = chunks ?a2" "elemCount ?a' = elemCount ?a2"
    "dead_destroys ?a' = dead_destroys ?a2"
    by (simp_all add: update_write_ptr_def Let_def)
  have "concat (chunks ?a2) = (concat (chunks a))[?i := None]"
    using set_slot_flat [OF ok pos lt] by simp
  also have "\<dots> = map Some (butlast (ca_list a)) @
      replicate (Suc (length (concat (chunks a)) - elemCount a)) None"
  proof -
    have xs: "ca_list a = butlast (ca_list a) @ [last (ca_list a)]"
      using lx n by (metis append_butlast_last_id length_greater_0_conv)
    have "concat (chunks a) = map Some (butlast (ca_list a)) @
        (Some (last (ca_list a)) # replicate (length (concat (chunks a)) - elemCount a) None)"
      by (subst live_prefix_flat [OF lp], subst xs) simp
    moreover have "length (map Some (butlast (ca_list a))) = ?i" using lx by simp
    ultimately show ?thesis
      by (metis list_update_length replicate_Suc)
  qed
  finally have flat: "concat (chunks ?a') = map Some (butlast (ca_list a)) @
      replicate (Suc (length (concat (chunks a)) - elemCount a)) None"
    using sel by simp
  have ec: "elemCount ?a' = length (butlast (ca_list a))" using lx sel by simp
  have "chunks_ok cs ?a'" using set_slot_uniform [OF ok] sel by (simp add: chunks_ok_def)
  moreover have "live_prefix ?a'" using flat ec by (rule live_prefixI)
  moreover have "cursor_ok cs ?a'" by (rule cursor_ok_update_write_ptr)
  ultimately have "ca_good cs ?a'" by (simp add: ca_good_def)
  moreover have "ca_list ?a' = butlast (ca_list a)" using flat ec by (rule live_prefixI)
  ultimately show thesis using eq sel by (intro that [of ?a']) simp_all
qed

lemma ca_tight_new: "0 < cs \<Longrightarrow> ca_tight cs ChunkedArray_new"
  by (simp add: ca_tight_def ca_good_def chunks_ok_def live_prefix_def ca_list_def cursor_ok_def
      update_write_ptr_def ChunkedArray_new_def)

lemma ca_list_new [simp]: "ca_list ChunkedArray_new = []"
  by (simp add: ca_list_def ChunkedArray_new_def)

lemma clear_tight: "0 < cs \<Longrightarrow> ca_tight cs (clear cs a)"
  by (simp add: ca_tight_def ca_good_def chunks_ok_def live_prefix_def ca_list_def cursor_ok_def
      update_write_ptr_def clear_def)

lemma clear_fields [simp]:
  "ca_list (clear cs a) = []" "elemCount (clear cs a) = 0" "chunks (clear cs a) = []"
  by (simp_all add: ca_list_def clear_def)

lemma subscript_assign_tight:
  assumes cs: "has_single_bit cs" and tight: "ca_tight cs a" and i: "i < elemCount a"
  obtains a' where "subscript_assign cs i v a = Some a'" "ca_tight cs a'"
    "ca_list a' = (ca_list a)[i := v]"
proof -
  have good: "ca_good cs a" using tight by (simp add: ca_tight_def)
  obtain a' where a': "subscript_assign cs i v a = Some a'" "ca_good cs a'"
    "ca_list a' = (ca_list a)[i := v]" "elemCount a' = elemCount a"
    "length (chunks a') = length (chunks a)"
    using subscript_assign_good [OF cs good i] by blast
  then have "ca_tight cs a'" using tight by (simp add: ca_tight_def)
  then show thesis using a' by (intro that [of a']) simp_all
qed


subsection \<open>The scenario of the write-cursor regression test\<close>


lemma has_single_bit_pow: "k < 64 \<Longrightarrow> has_single_bit (2 ^ k)"
  by (auto simp: has_single_bit_def)

lemma has_single_bit_256: "has_single_bit 256"
  using has_single_bit_pow [of 8] by simp

lemma ChunkedArray_new_fields [simp]:
  "chunks ChunkedArray_new = []" "elemCount ChunkedArray_new = 0"
  "dead_destroys ChunkedArray_new = 0"
  by (simp_all add: ChunkedArray_new_def)

lemma tight_good: "ca_tight cs a \<Longrightarrow> ca_good cs a"
  by (simp add: ca_tight_def)

lemma push_upto_tight:
  assumes cs: "has_single_bit cs"
  shows "ca_tight cs (push_upto cs n ChunkedArray_new) \<and>
         ca_list (push_upto cs n ChunkedArray_new) = [0..<n] \<and>
         elemCount (push_upto cs n ChunkedArray_new) = n \<and>
         dead_destroys (push_upto cs n ChunkedArray_new) = 0"
proof (induction n)
  case 0
  show ?case using ca_tight_new [OF has_single_bit_pos [OF cs]]
    by simp
next
  case (Suc n)
  let ?a = "push_upto cs n ChunkedArray_new"
  have t: "ca_tight cs ?a" using Suc.IH by simp
  have g: "ca_good cs ?a" using t by (rule tight_good)
  show ?case
    using emplace_back_tight [OF cs t, of n] emplace_back_live(2) [OF cs g, of n]
      emplace_back_fields(1,3) [OF cs g, of n] Suc.IH
    by (simp add: push_back_def)
qed

lemma pop_while_above_good:
  assumes cs: "has_single_bit cs"
  shows "ca_good cs a \<Longrightarrow>
         \<exists>a'. pop_while_above cs k a = Some a' \<and> ca_good cs a' \<and>
              elemCount a' = min k (elemCount a) \<and>
              ca_list a' = take k (ca_list a) \<and>
              length (chunks a') = length (chunks a) \<and>
              dead_destroys a' = dead_destroys a"
proof (induction "elemCount a - k" arbitrary: a)
  case 0
  then have le: "elemCount a \<le> k" by simp
  have "length (ca_list a) = elemCount a"
    using 0(2) by (simp add: ca_good_def length_ca_list)
  then show ?case using le 0(2)
    by (subst pop_while_above.simps) (simp add: size_ca_def)
next
  case (Suc d)
  then have gt: "k < elemCount a" and pos: "0 < elemCount a" by simp_all
  obtain a1 where a1: "pop_back cs a = Some a1" "ca_good cs a1"
    "ca_list a1 = butlast (ca_list a)" "elemCount a1 = elemCount a - 1"
    "length (chunks a1) = length (chunks a)" "dead_destroys a1 = dead_destroys a"
    using pop_back_good [OF cs Suc(3) pos] by blast
  have d: "d = elemCount a1 - k" using Suc(2) a1(4) by simp
  obtain a' where a': "pop_while_above cs k a1 = Some a'" "ca_good cs a'"
    "elemCount a' = min k (elemCount a1)" "ca_list a' = take k (ca_list a1)"
    "length (chunks a') = length (chunks a1)" "dead_destroys a' = dead_destroys a1"
    using Suc(1) [OF d a1(2)] by blast
  have lx: "length (ca_list a) = elemCount a"
    using Suc(3) by (simp add: ca_good_def length_ca_list)
  have "take k (butlast (ca_list a)) = take k (ca_list a)"
    using gt lx by (simp add: take_butlast)
  then show ?case using a' a1 gt
    by (subst pop_while_above.simps) (simp add: size_ca_def)
qed


section \<open>The bit fields of an entity handle\<close>


lemma INDEX_MASK_eq: "INDEX_MASK = mask 20"
  by (simp add: INDEX_MASK_def INDEX_BITS_def mask_eq_exp_minus_1)

lemma VERSION_MASK_eq: "VERSION_MASK = mask 12"
  by (simp add: VERSION_MASK_def VERSION_BITS_def INDEX_BITS_def mask_eq_exp_minus_1)

lemma unat_INDEX_MASK: "unat INDEX_MASK = 1048575"
  by (simp add: INDEX_MASK_def INDEX_BITS_def)

lemma EntityToIndex_Compose: "EntityToIndex (ComposeEntity i v) = i AND INDEX_MASK"
  unfolding EntityToIndex_def ComposeEntity_def INDEX_MASK_eq INDEX_BITS_def
  by (rule bit_word_eqI) (auto simp: bit_simps)

lemma EntityToVersion_Compose: "EntityToVersion (ComposeEntity i v) = v AND VERSION_MASK"
  unfolding EntityToVersion_def ComposeEntity_def INDEX_MASK_eq VERSION_MASK_eq INDEX_BITS_def
  by (rule bit_word_eqI) (auto simp: bit_simps)

lemma index_small: "unat (i :: u32) \<le> unat INDEX_MASK \<Longrightarrow> i AND INDEX_MASK = i"
proof -
  assume "unat i \<le> unat INDEX_MASK"
  then have "unat i < 2 ^ 20" by (simp add: unat_INDEX_MASK)
  then have "i < 2 ^ 20" by (simp add: word_less_nat_alt)
  then show ?thesis unfolding INDEX_MASK_eq by (rule less_mask_eq)
qed

lemma EntityToVersion_masked: "EntityToVersion e AND VERSION_MASK = EntityToVersion e"
  by (simp add: EntityToVersion_def and.assoc)

lemma EntityToIndex_masked: "EntityToIndex e AND INDEX_MASK = EntityToIndex e"
  by (simp add: EntityToIndex_def and.assoc)

lemma unat_take_bit_word: "unat (take_bit n (w :: u32)) = unat w mod 2 ^ n"
proof -
  have "unat (take_bit n w) = take_bit n (unat w)" by (rule unsigned_take_bit_eq)
  also have "\<dots> = unat w mod 2 ^ n" by (rule take_bit_eq_mod)
  finally show ?thesis .
qed

lemma unat_EntityToVersion: "unat (EntityToVersion e) < 4096"
proof -
  have "EntityToVersion e = take_bit 12 (drop_bit 20 e)"
    by (simp only: EntityToVersion_def VERSION_MASK_eq INDEX_BITS_def take_bit_eq_mask)
  then show ?thesis by (simp only: unat_take_bit_word) simp
qed

lemma unat_next_version:
  "unat ((EntityToVersion e + 1) AND VERSION_MASK) = (unat (EntityToVersion e) + 1) mod 2 ^ VERSION_BITS"
proof -
  have lt: "unat (EntityToVersion e) < 4096" by (rule unat_EntityToVersion)
  then have "unat (EntityToVersion e + 1) = unat (EntityToVersion e) + 1"
    by (simp add: unat_word_ariths)
  moreover have "(EntityToVersion e + 1) AND VERSION_MASK = take_bit 12 (EntityToVersion e + 1)"
    by (simp only: VERSION_MASK_eq take_bit_eq_mask)
  moreover have "VERSION_BITS = 12" by (simp add: VERSION_BITS_def INDEX_BITS_def)
  ultimately show ?thesis by (simp only: unat_take_bit_word)
qed

lemma unat_EntityToIndex: "unat (EntityToIndex e) \<le> unat INDEX_MASK"
  unfolding EntityToIndex_def by (simp add: word_and_le1 word_le_nat_alt [symmetric])


section \<open>The containers of the registry\<close>


lemma c_size_list: "c_inv cs c \<Longrightarrow> c_size c = length (c_list c)"
  by (cases c) (simp_all add: size_ca_def ca_tight_def ca_good_def length_ca_list)

lemma c_get_list:
  "c_inv cs c \<Longrightarrow> i < c_size c \<Longrightarrow> c_get cs c i = Some (c_list c ! i)"
  by (cases c) (simp_all add: size_ca_def ca_tight_def subscript_good)

lemma c_emplace_back_list:
  "c_inv cs c \<Longrightarrow> c_inv cs (c_emplace_back cs v c) \<and> c_list (c_emplace_back cs v c) = c_list c @ [v]"
  by (cases c) (simp_all add: emplace_back_tight emplace_back_live tight_good)

lemma c_put_list:
  assumes "c_inv cs c" "i < c_size c"
  obtains c' where "c_put cs i v c = Some c'" "c_inv cs c'" "c_list c' = (c_list c)[i := v]"
proof (cases c)
  case (Vec xs)
  with assms show thesis by (intro that [of "Vec (xs[i := v])"]) simp_all
next
  case (Chunked a)
  with assms have cs: "has_single_bit cs" and t: "ca_tight cs a" and i: "i < elemCount a"
    by (simp_all add: size_ca_def)
  obtain a' where "subscript_assign cs i v a = Some a'" "ca_tight cs a'"
    "ca_list a' = (ca_list a)[i := v]"
    using subscript_assign_tight [OF cs t i] by blast
  with Chunked cs show thesis by (intro that [of "Chunked a'"]) simp_all
qed

lemma c_clear_list: "c_inv cs c \<Longrightarrow> c_inv cs (c_clear cs c) \<and> c_list (c_clear cs c) = []"
  by (cases c) (simp_all add: clear_tight has_single_bit_pos)

lemma container_new_list:
  "IsContiguous cs \<or> has_single_bit cs \<Longrightarrow>
   c_inv cs (container_new cs) \<and> c_list (container_new cs) = []"
  by (auto simp: container_new_def ca_tight_new has_single_bit_pos)

text \<open>Sizes, whatever the state of the container.\<close>

lemma elemCount_emplace_back [simp]: "elemCount (emplace_back cs v a) = elemCount a + 1"
  by (simp add: emplace_back_def allocate_new_chunk_def Let_def)

lemma c_size_emplace_back [simp]: "c_size (c_emplace_back cs v c) = c_size c + 1"
  by (cases c) (simp_all add: size_ca_def)

lemma c_size_put: "c_put cs i v c = Some c' \<Longrightarrow> c_size c' = c_size c"
  by (cases c) (auto simp: size_ca_def subscript_assign_def split: if_splits)

lemma c_size_pop_back: "c_pop_back cs c = Some c' \<Longrightarrow> 0 < c_size c \<and> c_size c' = c_size c - 1"
  by (cases c)
     (auto simp: size_ca_def pop_back_def update_write_ptr_def destroy_at_def Let_def
           split: if_splits)

lemma c_size_clear [simp]: "c_size (c_clear cs c) = 0"
  by (cases c) (simp_all add: size_ca_def)

lemma c_size_new [simp]: "c_size (container_new cs) = 0"
  by (simp add: container_new_def size_ca_def)


section \<open>The component storages\<close>


lemma for_each_tuple_Some:
  "for_each_tuple f ss = Some ss' \<Longrightarrow>
   length ss' = length ss \<and> (\<forall>k<length ss. f (ss ! k) = Some (ss' ! k))"
proof (induction ss arbitrary: ss')
  case Nil then show ?case by simp
next
  case (Cons s ss)
  then obtain t ts where t: "f s = Some t" "for_each_tuple f ss = Some ts" "ss' = t # ts"
    by (auto split: option.splits)
  with Cons.IH [OF t(2)] show ?case by (auto simp: nth_Cons split: nat.splits)
qed

lemma for_each_tuple_member:
  assumes "for_each_tuple f ss = Some ss'" "s' \<in> set ss'"
  obtains s where "s \<in> set ss" "f s = Some s'"
proof -
  from assms(2) obtain k where k: "k < length ss'" "ss' ! k = s'" by (auto simp: in_set_conv_nth)
  with for_each_tuple_Some [OF assms(1)] have "k < length ss" "f (ss ! k) = Some s'" by auto
  then show thesis by (intro that [of "ss ! k"]) simp_all
qed

lemma for_each_tuple_nonempty:
  "for_each_tuple f ss = Some ss' \<Longrightarrow> ss \<noteq> [] \<Longrightarrow> ss' \<noteq> []"
  by (auto dest: for_each_tuple_Some)

lemma Init_sizes:
  "Init cs dflt i e s = Some s' \<Longrightarrow>
   c_size (data s') = c_size (data s) + 1 \<and> c_size (slotToEntity s') = c_size (slotToEntity s) + 1"
  by (auto simp: Init_def Let_def split: option.splits)

lemma Init_same:
  "Init cs dflt i e s1 = Some s1' \<Longrightarrow> Init cs dflt i e s2 = Some s2' \<Longrightarrow>
   same_index s1 s2 \<Longrightarrow> same_index s1' s2'"
  by (auto simp: Init_def Let_def same_index_def split: option.splits)

lemma move_last_into_sizes:
  "move_last_into cs slot lastSlot s = Some s' \<Longrightarrow>
   c_size (data s') = c_size (data s) \<and> c_size (slotToEntity s') = c_size (slotToEntity s)"
  by (auto simp: move_last_into_def c_size_put split: option.splits)

lemma move_last_into_same:
  "move_last_into cs slot lastSlot s1 = Some s1' \<Longrightarrow>
   move_last_into cs slot lastSlot s2 = Some s2' \<Longrightarrow>
   same_index s1 s2 \<Longrightarrow> same_index s1' s2'"
  by (auto simp: move_last_into_def same_index_def c_size_put split: option.splits)

lemma Kill_sizes:
  assumes "Kill cs i s = Some s'"
  shows "0 < c_size (data s)" "c_size (data s') = c_size (data s) - 1"
    "c_size (slotToEntity s') = c_size (slotToEntity s) - 1"
  using assms
  by (auto simp: Kill_def Let_def dest!: move_last_into_sizes c_size_pop_back
           split: option.splits if_splits)

lemma Kill_same:
  assumes "Kill cs i s1 = Some s1'" "Kill cs i s2 = Some s2'" "same_index s1 s2"
  shows "same_index s1' s2'"
proof -
  from assms(1) obtain w1 t1 d1 e1 where k1:
    "c_get cs (indexToSlot s1) (unat i) = Some w1"
    "(if unat w1 \<noteq> size_t_sub (c_size (data s1)) (Suc 0)
      then move_last_into cs (unat w1) (size_t_sub (c_size (data s1)) (Suc 0)) s1 else Some s1) = Some t1"
    "c_pop_back cs (data t1) = Some d1" "c_pop_back cs (slotToEntity t1) = Some e1"
    "s1' = t1\<lparr>data := d1, slotToEntity := e1\<rparr>"
    by (auto simp: Kill_def Let_def split: option.splits)
  from assms(2) obtain w2 t2 d2 e2 where k2:
    "c_get cs (indexToSlot s2) (unat i) = Some w2"
    "(if unat w2 \<noteq> size_t_sub (c_size (data s2)) (Suc 0)
      then move_last_into cs (unat w2) (size_t_sub (c_size (data s2)) (Suc 0)) s2 else Some s2) = Some t2"
    "c_pop_back cs (data t2) = Some d2" "c_pop_back cs (slotToEntity t2) = Some e2"
    "s2' = t2\<lparr>data := d2, slotToEntity := e2\<rparr>"
    by (auto simp: Kill_def Let_def split: option.splits)
  have w: "w1 = w2" and sz: "c_size (data s1) = c_size (data s2)"
    using k1(1) k2(1) assms(3) by (simp_all add: same_index_def)
  have t: "same_index t1 t2"
    using k1(2) k2(2) w sz assms(3) move_last_into_same
    by (auto split: if_splits)
  then have "e1 = e2" using k1(4) k2(4) by (simp add: same_index_def)
  moreover have "c_size d1 = c_size d2"
    using c_size_pop_back [OF k1(3)] c_size_pop_back [OF k2(3)] t by (simp add: same_index_def)
  ultimately show ?thesis using t k1(5) k2(5) by (simp add: same_index_def)
qed

lemma Set_storage_same:
  "Set_storage cs i v s = Some s' \<Longrightarrow>
   slotToEntity s' = slotToEntity s \<and> indexToSlot s' = indexToSlot s \<and>
   c_size (data s') = c_size (data s)"
  by (auto simp: Set_storage_def c_size_put split: option.splits)

lemma same_index_refl [simp]: "same_index s s"
  by (simp add: same_index_def)

lemma same_index_trans: "same_index a b \<Longrightarrow> same_index b c \<Longrightarrow> same_index a c"
  by (simp add: same_index_def)

lemma same_index_sym: "same_index a b \<Longrightarrow> same_index b a"
  by (simp add: same_index_def)


section \<open>The operations of the registry under its invariant\<close>


lemma free_list_update:
  "i \<notin> set (free_list n nxt ents) \<Longrightarrow>
   free_list n nxt (ents[unat i := x]) = free_list n nxt ents \<and>
   free_end n nxt (ents[unat i := x]) = free_end n nxt ents"
proof (induction n arbitrary: nxt)
  case 0 then show ?case by simp
next
  case (Suc n)
  then have ne: "i \<noteq> nxt" and rest: "i \<notin> set (free_list n (EntityToIndex (ents ! unat nxt)) ents)"
    by simp_all
  from ne have "unat i \<noteq> unat nxt" by (simp add: word_unat_eq_iff)
  then have "ents[unat i := x] ! unat nxt = ents ! unat nxt" by simp
  with Suc.IH [OF rest] show ?case by simp
qed

lemma free_head:
  assumes "free_list_ok r" "0 < fSize r"
  shows "unat (fNext r) < length (c_list (entities r))"
    and "EntityToIndex (c_list (entities r) ! unat (fNext r)) \<noteq> fNext r"
proof -
  from assms(2) have "0 < unat (fSize r)" by (simp add: unat_gt_0)
  then obtain n where n: "unat (fSize r) = Suc n" by (cases "unat (fSize r)") simp_all
  with assms(1) show "unat (fNext r) < length (c_list (entities r))"
    and "EntityToIndex (c_list (entities r) ! unat (fNext r)) \<noteq> fNext r"
    by (simp_all add: free_list_ok_def Let_def)
qed

lemma CreateEntity_error:
  "CreateEntity cs dflt r = (Inl err, r') \<Longrightarrow> r' = r"
  by (auto simp: CreateEntity_def Let_def split: if_splits option.splits)

lemma DestroyEntity_error:
  "DestroyEntity cs e r = (Inl err, r') \<Longrightarrow> r' = r"
  by (auto simp: DestroyEntity_def Let_def split: if_splits option.splits)

lemma Set_component_error:
  "Set_component cs k e v r = (Inl err, r') \<Longrightarrow> r' = r"
  by (auto simp: Set_component_def split: if_splits option.splits)

lemma SetSafe_error:
  "SetSafe cs k e v r = (Inl err, r') \<Longrightarrow> r' = r"
  by (auto simp: SetSafe_def dest: Set_component_error split: option.splits)

lemma CreateEntity_reuse:
  assumes inv: "registry_inv cs r" and pos: "0 < fSize r"
    and cr: "CreateEntity cs dflt r = (Inr e, r')"
  shows "unat (fNext r) < length (c_list (entities r))"
    and "e = ComposeEntity (fNext r) (EntityToVersion (c_list (entities r) ! unat (fNext r)))"
    and "c_inv cs (entities r')"
    and "c_list (entities r') = (c_list (entities r))[unat (fNext r) := e]"
    and "fNext r' = EntityToIndex (c_list (entities r) ! unat (fNext r))"
    and "fSize r' = fSize r - 1"
    and "for_each_tuple (Init cs dflt (fNext r) e) (storages r) = Some (storages r')"
proof -
  let ?ents = "c_list (entities r)"
  let ?i = "fNext r"
  let ?e = "ComposeEntity ?i (EntityToVersion (?ents ! unat ?i))"
  have ci: "c_inv cs (entities r)" and fl: "free_list_ok r"
    using inv by (simp_all add: registry_inv_def)
  show lt: "unat ?i < length ?ents" using free_head(1) [OF fl pos] .
  then have lt': "unat ?i < c_size (entities r)" using c_size_list [OF ci] by simp
  have get: "c_get cs (entities r) (unat ?i) = Some (?ents ! unat ?i)"
    using ci lt' by (rule c_get_list)
  obtain c' where c': "c_put cs (unat ?i) ?e (entities r) = Some c'" "c_inv cs c'"
    "c_list c' = ?ents[unat ?i := ?e]"
    using c_put_list [OF ci lt'] by blast
  from cr pos get c' have res:
    "e = ?e \<and> for_each_tuple (Init cs dflt ?i ?e) (storages r) = Some (storages r') \<and>
     entities r' = c' \<and> fNext r' = EntityToIndex (?ents ! unat ?i) \<and> fSize r' = fSize r - 1"
    by (auto simp: CreateEntity_def Let_def split: option.splits)
  then show "e = ?e" by simp
  with res c' show "c_inv cs (entities r')" "c_list (entities r') = ?ents[unat ?i := e]"
    "fNext r' = EntityToIndex (?ents ! unat ?i)" "fSize r' = fSize r - 1"
    "for_each_tuple (Init cs dflt ?i e) (storages r) = Some (storages r')"
    by simp_all
qed

lemma CreateEntity_fresh:
  assumes inv: "registry_inv cs r" and zero: "fSize r = 0"
    and cr: "CreateEntity cs dflt r = (Inr e, r')"
  shows "length (c_list (entities r)) < unat INDEX_MASK"
    and "e = ComposeEntity (of_nat (length (c_list (entities r)))) 0"
    and "c_inv cs (entities r')"
    and "c_list (entities r') = c_list (entities r) @ [e]"
    and "fNext r' = fNext r"
    and "fSize r' = 0"
    and "for_each_tuple (Init cs dflt (EntityToIndex e) e) (storages r) = Some (storages r')"
proof -
  let ?ents = "c_list (entities r)"
  let ?e = "ComposeEntity (of_nat (length ?ents)) 0"
  have ci: "c_inv cs (entities r)" using inv by (simp add: registry_inv_def)
  have sz: "c_size (entities r) = length ?ents" using ci by (rule c_size_list)
  from cr zero sz have res:
    "length ?ents < unat INDEX_MASK \<and> e = ?e \<and>
     for_each_tuple (Init cs dflt (EntityToIndex ?e) ?e) (storages r) = Some (storages r') \<and>
     entities r' = c_emplace_back cs ?e (entities r) \<and> fNext r' = fNext r \<and> fSize r' = fSize r"
    by (auto simp: CreateEntity_def Let_def INVALID_INDEX_def split: option.splits if_splits)
  then show "length ?ents < unat INDEX_MASK" "e = ?e" "fNext r' = fNext r" by simp_all
  from res zero show "fSize r' = 0" by simp
  from res c_emplace_back_list [OF ci, of ?e]
  show "c_inv cs (entities r')" "c_list (entities r') = ?ents @ [e]"
    "for_each_tuple (Init cs dflt (EntityToIndex e) e) (storages r) = Some (storages r')"
    by simp_all
qed

lemma CheckEntity_None:
  assumes ci: "c_inv cs (entities r)"
  shows "CheckEntity cs r e = None \<longleftrightarrow>
         (e \<noteq> NullEntity \<and> unat (EntityToIndex e) < length (c_list (entities r)) \<and>
          c_list (entities r) ! unat (EntityToIndex e) = e)"
  using c_size_list [OF ci] c_get_list [OF ci, of "unat (EntityToIndex e)"]
  by (auto simp: CheckEntity_def Let_def IsNullEntity_def split: option.splits)

lemma IsValidEntity_iff:
  assumes ci: "c_inv cs (entities r)"
  shows "IsValidEntity cs r e \<longleftrightarrow>
         (e \<noteq> NullEntity \<and> unat (EntityToIndex e) < length (c_list (entities r)) \<and>
          c_list (entities r) ! unat (EntityToIndex e) = e)"
  using c_size_list [OF ci] c_get_list [OF ci, of "unat (EntityToIndex e)"]
  by (auto simp: IsValidEntity_def Let_def IsNullEntity_def)

lemma DestroyEntity_ok:
  assumes inv: "registry_inv cs r" and de: "DestroyEntity cs e r = (Inr u, r')"
  shows "e \<noteq> NullEntity"
    and "unat (EntityToIndex e) < length (c_list (entities r))"
    and "c_list (entities r) ! unat (EntityToIndex e) = e"
    and "c_inv cs (entities r')"
    and "c_list (entities r') =
           (c_list (entities r))[unat (EntityToIndex e) :=
              ComposeEntity (fNext r) (NextEntityVersion e)]"
    and "fNext r' = EntityToIndex e"
    and "fSize r' = fSize r + 1"
    and "for_each_tuple (Kill cs (EntityToIndex e)) (storages r) = Some (storages r')"
proof -
  let ?ents = "c_list (entities r)"
  let ?i = "EntityToIndex e"
  let ?x = "ComposeEntity (fNext r) (NextEntityVersion e)"
  have ci: "c_inv cs (entities r)" using inv by (simp add: registry_inv_def)
  from de have chk: "CheckEntity cs r e = None"
    by (auto simp: DestroyEntity_def split: option.splits)
  then have v: "e \<noteq> NullEntity" "unat ?i < length ?ents" "?ents ! unat ?i = e"
    using CheckEntity_None [OF ci] by simp_all
  then show "e \<noteq> NullEntity" "unat ?i < length ?ents" "?ents ! unat ?i = e" .
  have lt': "unat ?i < c_size (entities r)" using v(2) c_size_list [OF ci] by simp
  have get: "c_get cs (entities r) (unat ?i) = Some e"
    using c_get_list [OF ci lt'] v(3) by simp
  obtain c' where c': "c_put cs (unat ?i) ?x (entities r) = Some c'" "c_inv cs c'"
    "c_list c' = ?ents[unat ?i := ?x]"
    using c_put_list [OF ci lt'] by blast
  from de chk get c' have res:
    "for_each_tuple (Kill cs ?i) (storages r) = Some (storages r') \<and>
     entities r' = c' \<and> fNext r' = ?i \<and> fSize r' = fSize r + 1"
    by (auto simp: DestroyEntity_def Let_def split: option.splits)
  with c' show "c_inv cs (entities r')" "c_list (entities r') = ?ents[unat ?i := ?x]"
    "fNext r' = ?i" "fSize r' = fSize r + 1"
    "for_each_tuple (Kill cs ?i) (storages r) = Some (storages r')"
    by simp_all
qed


subsection \<open>Preservation of the free list and of the alignment\<close>


lemma aligned_sizes:
  assumes "storages_aligned r"
  shows "unat (fSize r) \<le> c_size (entities r)"
proof -
  from assms have "storages r \<noteq> []" by (simp add: storages_aligned_def)
  then obtain s where "s \<in> set (storages r)" by (cases "storages r") auto
  with assms have "c_size (data s) + unat (fSize r) = c_size (entities r)"
    by (simp add: storages_aligned_def)
  then show ?thesis by simp
qed

lemma fNext_small:
  assumes "free_list_ok r" "length (c_list (entities r)) \<le> unat INDEX_MASK"
  shows "unat (fNext r) \<le> unat INDEX_MASK"
proof (cases "unat (fSize r)")
  case 0
  with assms(1) have "fNext r = INVALID_INDEX" by (simp add: free_list_ok_def Let_def)
  then show ?thesis by (simp add: INVALID_INDEX_def)
next
  case (Suc n)
  with assms(1) have "unat (fNext r) < length (c_list (entities r))"
    by (simp add: free_list_ok_def Let_def)
  with assms(2) show ?thesis by simp
qed

lemma free_list_ok_reuse:
  assumes ok: "free_list_ok r" and n: "unat (fSize r) = Suc n"
    and ents': "c_list (entities r') = (c_list (entities r))[unat (fNext r) := x]"
    and nxt: "fNext r' = EntityToIndex (c_list (entities r) ! unat (fNext r))"
    and sz: "unat (fSize r') = n"
  shows "free_list_ok r'"
proof -
  let ?ents = "c_list (entities r)"
  let ?i = "fNext r"
  let ?fl = "free_list n (fNext r') ?ents"
  from ok n nxt have d: "?i \<notin> set ?fl" "distinct ?fl"
    and el: "\<forall>j\<in>set ?fl. unat j < length ?ents \<and> EntityToIndex (?ents ! unat j) \<noteq> j"
    and en: "free_end n (fNext r') ?ents = INVALID_INDEX"
    by (simp_all add: free_list_ok_def Let_def)
  have same: "free_list n (fNext r') (?ents[unat ?i := x]) = ?fl"
    "free_end n (fNext r') (?ents[unat ?i := x]) = free_end n (fNext r') ?ents"
    using free_list_update [OF d(1)] by simp_all
  have "\<forall>j\<in>set ?fl. EntityToIndex (?ents[unat ?i := x] ! unat j) \<noteq> j"
  proof
    fix j assume j: "j \<in> set ?fl"
    with d(1) have "j \<noteq> ?i" by auto
    then have "unat ?i \<noteq> unat j" by (simp add: word_unat_eq_iff)
    then show "EntityToIndex (?ents[unat ?i := x] ! unat j) \<noteq> j" using el j by simp
  qed
  with d(2) el en same show ?thesis
    by (simp add: free_list_ok_def Let_def ents' sz)
qed

lemma free_list_ok_fresh:
  assumes ok: "free_list_ok r" and z: "fSize r = 0" and z': "fSize r' = 0"
    and nxt: "fNext r' = fNext r"
  shows "free_list_ok r'"
  using assms by (simp add: free_list_ok_def Let_def)

lemma free_list_ok_destroy:
  assumes ok: "free_list_ok r" and small: "length (c_list (entities r)) \<le> unat INDEX_MASK"
    and lt: "unat i < length (c_list (entities r))"
    and live: "EntityToIndex (c_list (entities r) ! unat i) = i"
    and ents': "c_list (entities r') = (c_list (entities r))[unat i := ComposeEntity (fNext r) v]"
    and nxt: "fNext r' = i"
    and sz: "unat (fSize r') = Suc (unat (fSize r))"
  shows "free_list_ok r'"
proof -
  let ?ents = "c_list (entities r)"
  let ?x = "ComposeEntity (fNext r) v"
  let ?n = "unat (fSize r)"
  let ?fl = "free_list ?n (fNext r) ?ents"
  from ok have d: "distinct ?fl"
    and el: "\<forall>j\<in>set ?fl. unat j < length ?ents \<and> EntityToIndex (?ents ! unat j) \<noteq> j"
    and en: "free_end ?n (fNext r) ?ents = INVALID_INDEX"
    by (simp_all add: free_list_ok_def Let_def)
  have notin: "i \<notin> set ?fl" using el live by auto
  have same: "free_list ?n (fNext r) (?ents[unat i := ?x]) = ?fl"
    "free_end ?n (fNext r) (?ents[unat i := ?x]) = free_end ?n (fNext r) ?ents"
    using free_list_update [OF notin] by simp_all
  have idx: "EntityToIndex ?x = fNext r"
    using fNext_small [OF ok small] by (simp add: EntityToIndex_Compose index_small)
  have ne: "fNext r \<noteq> i"
  proof (cases ?n)
    case 0
    with en have "fNext r = INDEX_MASK" by (simp add: INVALID_INDEX_def)
    moreover have "unat i < unat INDEX_MASK" using lt small by simp
    ultimately show ?thesis by auto
  next
    case (Suc m)
    then have "fNext r \<in> set ?fl" by simp
    with notin show ?thesis by auto
  qed
  have others: "\<forall>j\<in>set ?fl. EntityToIndex (?ents[unat i := ?x] ! unat j) \<noteq> j"
  proof
    fix j assume j: "j \<in> set ?fl"
    with notin have "j \<noteq> i" by auto
    then have "unat i \<noteq> unat j" by (simp add: word_unat_eq_iff)
    then show "EntityToIndex (?ents[unat i := ?x] ! unat j) \<noteq> j" using el j by simp
  qed
  show ?thesis
    using d el en same idx ne notin others lt
    by (simp add: free_list_ok_def Let_def ents' nxt sz)
qed

lemma aligned_for_each:
  assumes al: "storages_aligned r"
    and fe: "for_each_tuple f (storages r) = Some (storages r')"
    and same: "\<And>s1 s1' s2 s2'. f s1 = Some s1' \<Longrightarrow> f s2 = Some s2' \<Longrightarrow> same_index s1 s2 \<Longrightarrow>
                 same_index s1' s2'"
    and sizes: "\<And>s s'. s \<in> set (storages r) \<Longrightarrow> f s = Some s' \<Longrightarrow>
                 c_size (slotToEntity s) = c_size (data s) \<Longrightarrow>
                 c_size (data s) + unat (fSize r) = c_size (entities r) \<Longrightarrow>
                 c_size (slotToEntity s') = c_size (data s') \<and>
                 c_size (data s') + unat (fSize r') = c_size (entities r')"
  shows "storages_aligned r'"
proof -
  have ne: "storages r' \<noteq> []"
    using for_each_tuple_nonempty [OF fe] al by (simp add: storages_aligned_def)
  have pair: "\<forall>s1'\<in>set (storages r'). \<forall>s2'\<in>set (storages r'). same_index s1' s2'"
  proof (intro ballI)
    fix s1' s2' assume m: "s1' \<in> set (storages r')" "s2' \<in> set (storages r')"
    obtain s1 where s1: "s1 \<in> set (storages r)" "f s1 = Some s1'"
      using for_each_tuple_member [OF fe m(1)] by blast
    obtain s2 where s2: "s2 \<in> set (storages r)" "f s2 = Some s2'"
      using for_each_tuple_member [OF fe m(2)] by blast
    have "same_index s1 s2" using al s1(1) s2(1) by (simp add: storages_aligned_def)
    with s1(2) s2(2) show "same_index s1' s2'" by (rule same)
  qed
  have sz: "\<forall>s'\<in>set (storages r'). c_size (slotToEntity s') = c_size (data s') \<and>
              c_size (data s') + unat (fSize r') = c_size (entities r')"
  proof
    fix s' assume m: "s' \<in> set (storages r')"
    obtain s where s: "s \<in> set (storages r)" "f s = Some s'"
      using for_each_tuple_member [OF fe m] by blast
    with al have "c_size (slotToEntity s) = c_size (data s)"
      "c_size (data s) + unat (fSize r) = c_size (entities r)"
      by (simp_all add: storages_aligned_def)
    with s show "c_size (slotToEntity s') = c_size (data s') \<and>
              c_size (data s') + unat (fSize r') = c_size (entities r')"
      by (intro sizes)
  qed
  show ?thesis using ne pair sz by (simp add: storages_aligned_def)
qed


subsection \<open>Every reachable registry satisfies the invariant\<close>



lemma registry_inv_new:
  assumes "IsContiguous cs \<or> has_single_bit cs" "0 < n"
  shows "registry_inv cs (Registry_new cs n)"
proof -
  have "c_inv cs (container_new cs :: Entity container) \<and>
        c_list (container_new cs :: Entity container) = []"
    using assms(1) by (rule container_new_list)
  then show ?thesis using assms(2)
    by (simp add: registry_inv_def Registry_new_def free_list_ok_def storages_aligned_def
        same_index_def ComponentStorage_new_def)
qed

lemma registry_inv_create:
  assumes inv: "registry_inv cs r" and cr: "CreateEntity cs dflt r = (Inr e, r')"
  shows "registry_inv cs r'"
proof -
  let ?ents = "c_list (entities r)"
  have ci: "c_inv cs (entities r)" and small: "c_size (entities r) \<le> unat INDEX_MASK"
    and fl: "free_list_ok r" and al: "storages_aligned r"
    using inv by (simp_all add: registry_inv_def)
  have sz: "c_size (entities r) = length ?ents" using ci by (rule c_size_list)
  show ?thesis
  proof (cases "0 < fSize r")
    case True
    note c = CreateEntity_reuse [OF inv True cr]
    from True have "0 < unat (fSize r)" by (simp add: unat_gt_0)
    then obtain n where n: "unat (fSize r) = Suc n" by (cases "unat (fSize r)") simp_all
    have n': "unat (fSize r') = n" using c(6) n True by (simp add: unat_minus_one)
    have sz': "c_size (entities r') = length ?ents" using c_size_list [OF c(3)] c(4) by simp
    have "free_list_ok r'" using fl n c(4) c(5) n' by (rule free_list_ok_reuse)
    moreover have "storages_aligned r'"
      using al c(7)
    proof (rule aligned_for_each)
      fix s1 s1' s2 s2'
      assume "Init cs dflt (fNext r) e s1 = Some s1'" "Init cs dflt (fNext r) e s2 = Some s2'"
        "same_index s1 s2"
      then show "same_index s1' s2'" by (rule Init_same)
    next
      fix s s'
      assume "Init cs dflt (fNext r) e s = Some s'"
        "c_size (slotToEntity s) = c_size (data s)"
        "c_size (data s) + unat (fSize r) = c_size (entities r)"
      then show "c_size (slotToEntity s') = c_size (data s') \<and>
                 c_size (data s') + unat (fSize r') = c_size (entities r')"
        using Init_sizes [of cs dflt "fNext r" e s s'] n n' sz sz' by simp
    qed
    ultimately show ?thesis using c(3) sz' small sz by (simp add: registry_inv_def)
  next
    case False
    then have z: "fSize r = 0" using word_neq_0_conv [of "fSize r"] by blast
    note c = CreateEntity_fresh [OF inv z cr]
    have sz': "c_size (entities r') = length ?ents + 1" using c_size_list [OF c(3)] c(4) by simp
    have "free_list_ok r'" using fl z c(6) c(5) by (rule free_list_ok_fresh)
    moreover have "storages_aligned r'"
      using al c(7)
    proof (rule aligned_for_each)
      fix s1 s1' s2 s2'
      assume "Init cs dflt (EntityToIndex e) e s1 = Some s1'"
        "Init cs dflt (EntityToIndex e) e s2 = Some s2'" "same_index s1 s2"
      then show "same_index s1' s2'" by (rule Init_same)
    next
      fix s s'
      assume "Init cs dflt (EntityToIndex e) e s = Some s'"
        "c_size (slotToEntity s) = c_size (data s)"
        "c_size (data s) + unat (fSize r) = c_size (entities r)"
      then show "c_size (slotToEntity s') = c_size (data s') \<and>
                 c_size (data s') + unat (fSize r') = c_size (entities r')"
        using Init_sizes [of cs dflt "EntityToIndex e" e s s'] z c(6) sz sz' by simp
    qed
    ultimately show ?thesis using c(3) sz' c(1) by (simp add: registry_inv_def)
  qed
qed

lemma registry_inv_destroy:
  assumes inv: "registry_inv cs r" and de: "DestroyEntity cs e r = (Inr u, r')"
  shows "registry_inv cs r'"
proof -
  let ?ents = "c_list (entities r)"
  let ?i = "EntityToIndex e"
  have ci: "c_inv cs (entities r)" and small: "c_size (entities r) \<le> unat INDEX_MASK"
    and fl: "free_list_ok r" and al: "storages_aligned r"
    using inv by (simp_all add: registry_inv_def)
  have sz: "c_size (entities r) = length ?ents" using ci by (rule c_size_list)
  note d = DestroyEntity_ok [OF inv de]
  have sz': "c_size (entities r') = length ?ents" using c_size_list [OF d(4)] d(5) by simp
  have "unat (fSize r) \<le> 1048575"
    using aligned_sizes [OF al] small by (simp add: unat_INDEX_MASK)
  then have n': "unat (fSize r') = Suc (unat (fSize r))"
    using d(7) by (simp add: unat_word_ariths)
  have live: "EntityToIndex (?ents ! unat ?i) = ?i" using d(3) by simp
  have small': "length ?ents \<le> unat INDEX_MASK" using small sz by simp
  have "free_list_ok r'" using fl small' d(2) live d(5) d(6) n' by (rule free_list_ok_destroy)
  moreover have "storages_aligned r'"
    using al d(8)
  proof (rule aligned_for_each)
    fix s1 s1' s2 s2'
    assume "Kill cs ?i s1 = Some s1'" "Kill cs ?i s2 = Some s2'" "same_index s1 s2"
    then show "same_index s1' s2'" by (rule Kill_same)
  next
    fix s s'
    assume k: "Kill cs ?i s = Some s'"
      and "c_size (slotToEntity s) = c_size (data s)"
      "c_size (data s) + unat (fSize r) = c_size (entities r)"
    then show "c_size (slotToEntity s') = c_size (data s') \<and>
               c_size (data s') + unat (fSize r') = c_size (entities r')"
      using Kill_sizes [OF k] n' sz sz' by simp
  qed
  ultimately show ?thesis using d(4) sz' small sz by (simp add: registry_inv_def)
qed

lemma registry_inv_set:
  assumes inv: "registry_inv cs r" and st: "Set_component cs k e v r = (Inr u, r')"
  shows "registry_inv cs r'"
proof -
  from st have k: "k < length (storages r)"
    by (simp add: Set_component_def split: if_splits)
  with st obtain s where s: "Set_storage cs (EntityToIndex e) v (storages r ! k) = Some s"
    and r': "r' = r\<lparr>storages := (storages r)[k := s]\<rparr>"
    by (cases "Set_storage cs (EntityToIndex e) v (storages r ! k)")
       (simp_all add: Set_component_def)
  have al: "storages_aligned r" using inv by (simp add: registry_inv_def)
  note same = Set_storage_same [OF s]
  let ?o = "storages r ! k"
  have old: "?o \<in> set (storages r)" using k by simp
  have o_sz: "c_size (slotToEntity ?o) = c_size (data ?o)"
    "c_size (data ?o) + unat (fSize r) = c_size (entities r)"
    using al old by (simp_all add: storages_aligned_def)
  have s_o: "same_index s ?o" using same by (simp add: same_index_def)
  have s_sz: "c_size (slotToEntity s) = c_size (data s)"
    "c_size (data s) + unat (fSize r) = c_size (entities r)"
    using same o_sz by simp_all
  have rel: "same_index t ?o \<and> c_size (slotToEntity t) = c_size (data t) \<and>
       c_size (data t) + unat (fSize r) = c_size (entities r)"
    if "t \<in> set ((storages r)[k := s])" for t
  proof -
    from that set_update_subset_insert [of "storages r" k s]
    have "t = s \<or> t \<in> set (storages r)" by blast
    then show ?thesis
    proof
      assume "t = s" with s_o s_sz show ?thesis by simp
    next
      assume t: "t \<in> set (storages r)"
      with al old have "same_index t ?o" by (simp add: storages_aligned_def)
      moreover from al t have "c_size (slotToEntity t) = c_size (data t) \<and>
        c_size (data t) + unat (fSize r) = c_size (entities r)"
        by (simp add: storages_aligned_def)
      ultimately show ?thesis by simp
    qed
  qed
  have ne: "(storages r)[k := s] \<noteq> []" using k by auto
  have pair: "\<forall>s1\<in>set ((storages r)[k := s]). \<forall>s2\<in>set ((storages r)[k := s]). same_index s1 s2"
  proof (intro ballI)
    fix s1 s2 assume "s1 \<in> set ((storages r)[k := s])" "s2 \<in> set ((storages r)[k := s])"
    then have "same_index s1 ?o" "same_index s2 ?o" using rel by blast+
    then show "same_index s1 s2" by (simp add: same_index_def)
  qed
  have szs: "\<forall>t\<in>set ((storages r)[k := s]). c_size (slotToEntity t) = c_size (data t) \<and>
       c_size (data t) + unat (fSize r) = c_size (entities r)"
    using rel by blast
  have "storages_aligned r'"
    unfolding storages_aligned_def r' using ne pair szs by simp
  then show ?thesis using inv r' by (simp add: registry_inv_def free_list_ok_def)
qed

lemma registry_inv_clear:
  assumes inv: "registry_inv cs r"
  shows "registry_inv cs (Clear_registry cs r)"
proof -
  let ?r' = "Clear_registry cs r"
  have ci: "c_inv cs (entities r)" and al: "storages_aligned r"
    using inv by (simp_all add: registry_inv_def)
  have f: "entities ?r' = c_clear cs (entities r)" "fNext ?r' = INVALID_INDEX" "fSize ?r' = 0"
    "storages ?r' = map (Clear_storage cs) (storages r)"
    by (simp_all add: Clear_registry_def)
  have e: "c_inv cs (entities ?r')" "c_list (entities ?r') = []"
    using c_clear_list [OF ci] f(1) by simp_all
  have ne: "storages ?r' \<noteq> []" using al f(4) by (simp add: storages_aligned_def)
  have el: "\<exists>s\<in>set (storages r). t = Clear_storage cs s" if "t \<in> set (storages ?r')" for t
    using that f(4) by auto
  have pair: "\<forall>s1\<in>set (storages ?r'). \<forall>s2\<in>set (storages ?r'). same_index s1 s2"
  proof (intro ballI)
    fix t1 t2 assume "t1 \<in> set (storages ?r')" "t2 \<in> set (storages ?r')"
    then obtain s1 s2 where s: "s1 \<in> set (storages r)" "t1 = Clear_storage cs s1"
      "s2 \<in> set (storages r)" "t2 = Clear_storage cs s2"
      using el by blast
    with al have "same_index s1 s2" by (simp add: storages_aligned_def)
    with s(2,4) show "same_index t1 t2" by (simp add: same_index_def Clear_storage_def)
  qed
  have szs: "\<forall>t\<in>set (storages ?r'). c_size (slotToEntity t) = c_size (data t) \<and>
       c_size (data t) + unat (fSize ?r') = c_size (entities ?r')"
  proof
    fix t assume "t \<in> set (storages ?r')"
    then obtain s where "t = Clear_storage cs s" using el by blast
    then show "c_size (slotToEntity t) = c_size (data t) \<and>
       c_size (data t) + unat (fSize ?r') = c_size (entities ?r')"
      using f(1,3) by (simp add: Clear_storage_def)
  qed
  have "storages_aligned ?r'" unfolding storages_aligned_def using ne pair szs by simp
  moreover have "free_list_ok ?r'" using e(2) f(2,3) by (simp add: free_list_ok_def)
  moreover have "c_size (entities ?r') \<le> unat INDEX_MASK" using f(1) by simp
  ultimately show ?thesis using e(1) by (simp add: registry_inv_def)
qed

lemma reachable_inv: "reachable cs dflt r \<Longrightarrow> registry_inv cs r"
proof (induction rule: reachable.induct)
  case (reach_new n)
  from reach_new.hyps show ?case by (rule registry_inv_new)
next
  case (reach_create r res r')
  then show ?case
    by (cases res) (auto dest: CreateEntity_error registry_inv_create)
next
  case (reach_destroy r e res r')
  then show ?case
    by (cases res) (auto dest: DestroyEntity_error registry_inv_destroy)
next
  case (reach_set r k e v res r')
  then show ?case
    by (cases res) (auto dest: Set_component_error registry_inv_set)
next
  case (reach_set_safe r k e v res r')
  then show ?case
    by (cases res)
       (auto simp: SetSafe_def dest: Set_component_error registry_inv_set split: option.splits)
next
  case (reach_clear r)
  from reach_clear.IH show ?case by (rule registry_inv_clear)
qed



subsection \<open>Auxiliary facts for the claims about the registry\<close>



lemma EntityToIndex_Null: "EntityToIndex NullEntity = INDEX_MASK"
  by (simp add: EntityToIndex_def NullEntity_def)

lemma index_less_not_Null:
  assumes "unat (EntityToIndex e) < n" "n \<le> unat INDEX_MASK"
  shows "e \<noteq> NullEntity"
  using assms EntityToIndex_Null by auto

lemma CreateEntity_reuse_result:
  "0 < fSize r \<Longrightarrow> CreateEntity cs dflt r = (res, r') \<Longrightarrow>
   res = Inl UndefinedBehaviour \<or> (\<exists>e. res = Inr e)"
  by (auto simp: CreateEntity_def Let_def split: option.splits)

lemma valid_is_live:
  assumes ci: "c_inv cs (entities r)" and v: "IsValidEntity cs r h"
  shows "unat (EntityToIndex h) < length (c_list (entities r))"
    and "EntityToIndex (c_list (entities r) ! unat (EntityToIndex h)) = EntityToIndex h"
    and "c_list (entities r) ! unat (EntityToIndex h) = h"
  using v IsValidEntity_iff [OF ci, of h] by simp_all



lemma word_pos_unat: "(0 < (w :: u32)) = (0 < unat w)"
  by (simp add: word_less_nat_alt)

lemma CheckEntity_cases:
  assumes ci: "c_inv cs (entities r)"
  shows "CheckEntity cs r e = None \<or> CheckEntity cs r e = Some NullEntityError \<or>
         CheckEntity cs r e = Some OutOfBoundsError \<or>
         CheckEntity cs r e = Some StaleEntityError"
proof (cases "unat (EntityToIndex e) < c_size (entities r)")
  case True
  then show ?thesis using c_get_list [OF ci True] by (simp add: CheckEntity_def Let_def)
next
  case False
  then show ?thesis by (simp add: CheckEntity_def Let_def)
qed



lemma CreateEntity_slot:
  assumes inv: "registry_inv cs r" and cr: "CreateEntity cs dflt r = (Inr e', r')"
  shows "unat (EntityToIndex e') < length (c_list (entities r'))"
    and "c_list (entities r') ! unat (EntityToIndex e') = e'"
    and "length (c_list (entities r)) \<le> length (c_list (entities r'))"
    and "j < length (c_list (entities r')) \<Longrightarrow> j \<noteq> unat (EntityToIndex e') \<Longrightarrow>
         j < length (c_list (entities r)) \<and> c_list (entities r') ! j = c_list (entities r) ! j"
    and "\<not> (unat (EntityToIndex e') < length (c_list (entities r)) \<and>
            EntityToIndex (c_list (entities r) ! unat (EntityToIndex e')) = EntityToIndex e')"
proof -
  let ?ents = "c_list (entities r)"
  let ?ents' = "c_list (entities r')"
  let ?i = "EntityToIndex e'"
  have ci: "c_inv cs (entities r)" and small: "c_size (entities r) \<le> unat INDEX_MASK"
    and fl: "free_list_ok r"
    using inv by (simp_all add: registry_inv_def)
  have sz: "c_size (entities r) = length ?ents" using ci by (rule c_size_list)
  have "unat ?i < length ?ents' \<and> ?ents' ! unat ?i = e' \<and> length ?ents \<le> length ?ents' \<and>
        (j < length ?ents' \<longrightarrow> j \<noteq> unat ?i \<longrightarrow> j < length ?ents \<and> ?ents' ! j = ?ents ! j) \<and>
        \<not> (unat ?i < length ?ents \<and> EntityToIndex (?ents ! unat ?i) = ?i)"
  proof (cases "0 < fSize r")
    case True
    note c = CreateEntity_reuse [OF inv True cr]
    have "unat (fNext r) \<le> unat INDEX_MASK" using c(1) small sz by simp
    then have "fNext r AND INDEX_MASK = fNext r" by (rule index_small)
    then have idx: "?i = fNext r" by (simp add: c(2) EntityToIndex_Compose)
    have len: "length ?ents' = length ?ents" by (simp add: c(4))
    have a: "?ents' ! unat ?i = e'" using c(1) by (simp add: c(4) idx)
    have b: "j \<noteq> unat ?i \<Longrightarrow> ?ents' ! j = ?ents ! j" by (simp add: c(4) idx)
    have d: "EntityToIndex (?ents ! unat ?i) \<noteq> ?i"
      using free_head(2) [OF fl True] by (simp add: idx)
    show ?thesis using c(1) len a b d idx by simp
  next
    case False
    then have z: "fSize r = 0" using word_neq_0_conv [of "fSize r"] by blast
    note c = CreateEntity_fresh [OF inv z cr]
    let ?n = "length ?ents"
    have "?n < 2 ^ 32" using c(1) by (simp add: unat_INDEX_MASK)
    then have n: "unat (of_nat ?n :: u32) = ?n" by (simp add: unat_of_nat)
    then have "unat (of_nat ?n :: u32) \<le> unat INDEX_MASK" using c(1) by simp
    then have "(of_nat ?n :: u32) AND INDEX_MASK = of_nat ?n" by (rule index_small)
    then have idx: "?i = of_nat ?n" by (simp add: c(2) EntityToIndex_Compose)
    have ui: "unat ?i = ?n" using idx n by simp
    have len: "length ?ents' = Suc ?n" by (simp add: c(4))
    have a: "?ents' ! unat ?i = e'" by (simp add: c(4) ui)
    have b: "j < ?n \<Longrightarrow> ?ents' ! j = ?ents ! j" by (simp add: c(4) nth_append)
    show ?thesis using len a b ui by auto
  qed
  then show "unat ?i < length ?ents'" "?ents' ! unat ?i = e'" "length ?ents \<le> length ?ents'"
    "j < length ?ents' \<Longrightarrow> j \<noteq> unat ?i \<Longrightarrow> j < length ?ents \<and> ?ents' ! j = ?ents ! j"
    "\<not> (unat ?i < length ?ents \<and> EntityToIndex (?ents ! unat ?i) = ?i)"
    by blast+
qed


section \<open>Destroying a range of elements\<close>


lemma kill_range_same [simp]: "kill_range x x F = F"
  by (simp add: kill_range_def)

lemma length_kill_range: "x \<le> y \<Longrightarrow> y \<le> length F \<Longrightarrow> length (kill_range x y F) = length F"
  by (simp add: kill_range_def)

lemma nth_kill_range:
  "x \<le> y \<Longrightarrow> y \<le> length F \<Longrightarrow> i < length F \<Longrightarrow>
   kill_range x y F ! i = (if x \<le> i \<and> i < y then None else F ! i)"
  by (auto simp: kill_range_def nth_append)

lemma kill_range_eqI:
  assumes "x \<le> y" "y \<le> length F" "length G = length F"
    and "\<And>i. i < length F \<Longrightarrow> G ! i = (if x \<le> i \<and> i < y then None else F ! i)"
  shows "G = kill_range x y F"
  using assms by (intro nth_equalityI) (simp_all add: length_kill_range nth_kill_range)

lemma kill_range_step:
  assumes "x \<le> y" "y < length F"
  shows "(kill_range x y F)[y := None] = kill_range x (Suc y) F"
  using assms
  by (intro kill_range_eqI) (auto simp: length_kill_range nth_kill_range nth_list_update)

lemma kill_range_comp:
  assumes "x \<le> y" "y \<le> z" "z \<le> length F"
  shows "kill_range y z (kill_range x y F) = kill_range x z F"
  using assms
  by (intro kill_range_eqI [symmetric, THEN sym])
     (auto simp: length_kill_range nth_kill_range)

lemma dead_in_same [simp]: "dead_in x x F = 0"
  by (simp add: dead_in_def)

lemma dead_in_add:
  assumes "x \<le> y" "y \<le> z" "z \<le> length F"
  shows "dead_in x z F = dead_in x y F + dead_in y z F"
proof -
  have "take z F = take y F @ drop y (take z F)"
    using assms(2) by (metis append_take_drop_id min.absorb_iff2 take_take min.commute)
  then have "drop x (take z F) = drop x (take y F @ drop y (take z F))" by simp
  also have "\<dots> = drop x (take y F) @ drop y (take z F)"
    using assms by simp
  finally show ?thesis by (simp add: dead_in_def)
qed

lemma dead_in_kill:
  assumes "x \<le> y" "y \<le> z" "z \<le> length F"
  shows "dead_in y z (kill_range x y F) = dead_in y z F"
proof -
  have "drop y (take z (kill_range x y F)) = drop y (take z F)"
    using assms
    by (intro nth_equalityI) (simp_all add: length_kill_range nth_kill_range)
  then show ?thesis by (simp add: dead_in_def)
qed

lemma dead_in_Suc:
  assumes "y < length F"
  shows "dead_in y (Suc y) F = (if F ! y = None then 1 else 0)"
proof -
  have "drop y (take (Suc y) F) = [F ! y]"
    using assms by (simp add: take_Suc_conv_app_nth)
  then show ?thesis by (simp add: dead_in_def)
qed



lemma destroys_refl: "chunks_ok cs a \<Longrightarrow> destroys cs x x a a"
  by (simp add: destroys_def)

lemma destroys_trans:
  assumes "destroys cs x y a a'" "destroys cs y z a' a''"
    and "x \<le> y" "y \<le> z" "z \<le> length (concat (chunks a))"
  shows "destroys cs x z a a''"
proof -
  let ?F = "concat (chunks a)"
  have "kill_range y z (kill_range x y ?F) = kill_range x z ?F"
    using assms(3-5) by (rule kill_range_comp)
  moreover have "dead_in y z (kill_range x y ?F) = dead_in y z ?F"
    using assms(3-5) by (rule dead_in_kill)
  moreover have "dead_in x z ?F = dead_in x y ?F + dead_in y z ?F"
    using assms(3-5) by (rule dead_in_add)
  ultimately show ?thesis using assms(1,2) by (simp add: destroys_def)
qed

lemma chunks_ok_cong: "chunks b = chunks a \<Longrightarrow> chunks_ok cs b = chunks_ok cs a"
  by (simp add: chunks_ok_def)

lemma destroys_at:
  assumes ok: "chunks_ok cs a" and pos: "0 < cs" and i: "i < cs * length (chunks a)"
  shows "destroys cs i (Suc i) a (destroy_at (i div cs) (i mod cs) a)"
proof -
  let ?F = "concat (chunks a)"
  let ?a' = "destroy_at (i div cs) (i mod cs) a"
  have uni: "\<forall>c\<in>set (chunks a). length c = cs" using ok by (simp add: chunks_ok_def)
  have len: "length ?F = cs * length (chunks a)" using uni by (rule length_concat_uniform)
  have get: "get_slot (chunks a) (i div cs) (i mod cs) = ?F ! i"
    using uni pos i by (rule get_slot_flat)
  have dead: "dead_in i (Suc i) ?F = (if ?F ! i = None then 1 else 0)"
    using i len by (simp add: dead_in_Suc)
  have step: "kill_range i (Suc i) ?F = ?F[i := None]"
    using kill_range_step [of i i ?F] i len by simp
  have flat: "concat (chunks ?a') = ?F[i := None]"
  proof (cases "?F ! i = None")
    case True
    then have "?F[i := None] = ?F" by (metis list_update_id)
    moreover have "chunks ?a' = chunks a" using True get by (simp add: destroy_at_def)
    ultimately show ?thesis by simp
  next
    case False
    then have "get_slot (chunks a) (i div cs) (i mod cs) \<noteq> None" using get by simp
    then have "chunks ?a' = set_slot (i div cs) (i mod cs) None (chunks a)"
      by (auto simp: destroy_at_def)
    then show ?thesis using set_slot_flat [OF uni pos i] by simp
  qed
  have cok: "chunks_ok cs ?a'"
    using set_slot_uniform [OF uni] ok by (simp add: destroy_at_def chunks_ok_def)
  have fields: "length (chunks ?a') = length (chunks a)" "elemCount ?a' = elemCount a"
    "m_writePtr ?a' = m_writePtr a" "m_chunkEnd ?a' = m_chunkEnd a"
    by (simp_all add: destroy_at_def)
  have dd: "dead_destroys ?a' = dead_destroys a + dead_in i (Suc i) ?F"
    using get dead by (simp add: destroy_at_def)
  show ?thesis
    unfolding destroys_def step using cok fields flat dd by (intro conjI)
qed



lemma destroys_chunks_ok: "destroys cs x y a a' \<Longrightarrow> chunks_ok cs a'"
  and destroys_length: "destroys cs x y a a' \<Longrightarrow> length (chunks a') = length (chunks a)"
  by (simp_all add: destroys_def)

lemma flat_length: "chunks_ok cs a \<Longrightarrow> length (concat (chunks a)) = cs * length (chunks a)"
  by (simp add: chunks_ok_def length_concat_uniform)

lemma destroy_range_Suc:
  "lo \<le> n \<Longrightarrow> destroy_range ci lo (Suc n) a = destroy_at ci n (destroy_range ci lo n a)"
  by (simp add: destroy_range_def)

lemma destroys_range:
  assumes ok: "chunks_ok cs a" and pos: "0 < cs" and ci: "ci < length (chunks a)"
    and lo: "lo \<le> hi" and hi: "hi \<le> cs"
  shows "destroys cs (ci * cs + lo) (ci * cs + hi) a (destroy_range ci lo hi a)"
  using lo hi
proof (induction hi rule: dec_induct)
  case base
  show ?case using ok by (simp add: destroy_range_def destroys_refl)
next
  case (step n)
  let ?a1 = "destroy_range ci lo n a"
  let ?i = "ci * cs + n"
  have n: "n < cs" using step.prems by simp
  have IH: "destroys cs (ci * cs + lo) ?i a ?a1" using step.IH n by simp
  have ok1: "chunks_ok cs ?a1" and len1: "length (chunks ?a1) = length (chunks a)"
    using IH by (rule destroys_chunks_ok, rule destroys_length)
  have "ci * cs + cs \<le> length (chunks a) * cs"
    using ci by (metis Suc_leI mult_Suc mult_le_mono1 add.commute)
  then have bound: "Suc ?i \<le> cs * length (chunks a)" using n by (simp add: mult.commute)
  have dm: "?i div cs = ci" "?i mod cs = n" using n by simp_all
  have "destroys cs ?i (Suc ?i) ?a1 (destroy_at (?i div cs) (?i mod cs) ?a1)"
    using ok1 pos bound len1 by (intro destroys_at) simp_all
  then have st: "destroys cs ?i (Suc ?i) ?a1 (destroy_range ci lo (Suc n) a)"
    using step.hyps(1) by (simp only: dm destroy_range_Suc)
  have "destroys cs (ci * cs + lo) (Suc ?i) a (destroy_range ci lo (Suc n) a)"
    using IH st
  proof (rule destroys_trans)
    show "ci * cs + lo \<le> ?i" using step.hyps(1) by simp
    show "?i \<le> Suc ?i" by simp
    show "Suc ?i \<le> length (concat (chunks a))" using bound flat_length [OF ok] by simp
  qed
  then show ?case by simp
qed


section \<open>The example states, evaluated\<close>
lemma masks_eval: "INDEX_MASK = 1048575" "VERSION_MASK = 4095" "INVALID_INDEX = 1048575"
  "INDEX_BITS = 20"
  by (simp_all add: INDEX_MASK_def VERSION_MASK_def INVALID_INDEX_def INDEX_BITS_def
      VERSION_BITS_def)

lemma replicate_two: "replicate 2 x = [x, x]"
  by (simp add: numeral_2_eq_2)

lemma push_chunks_until_eq:
  "push_chunks_until cs n chs = chs @ replicate (n - length chs) (make_chunk cs)"
proof (induction cs n chs rule: push_chunks_until.induct)
  case (1 cs n chs)
  show ?case
  proof (cases "length chs < n")
    case True
    then have "n - length chs = Suc (n - Suc (length chs))" by simp
    with 1 True show ?thesis
      by (subst push_chunks_until.simps) (simp add: replicate_app_Cons_same)
  next
    case False
    then show ?thesis by (subst push_chunks_until.simps) simp
  qed
qed

lemma example_create: "CreateEntity 0 0 (Registry_new 0 2) = (Inr 0, registry_one)"
  by (simp add: CreateEntity_def Registry_new_def registry_one_def storage_one_def Init_def
      ComponentStorage_new_def container_new_def IsContiguous_def masks_eval ComposeEntity_def
      EntityToIndex_def vector_resize_def replicate_two)

lemma example_destroy: "DestroyEntity 0 0 registry_one = (Inr (), registry_freed)"
  by (simp add: DestroyEntity_def CheckEntity_def registry_one_def registry_freed_def
      storage_one_def storage_none_def Kill_def IsNullEntity_def NullEntity_def
      EntityToIndex_def EntityToVersion_def NextEntityVersion_def ComposeEntity_def masks_eval
      size_t_sub_def Let_def)

lemma example_create_again: "CreateEntity 0 0 registry_freed = (Inr 1048576, registry_again)"
  by (simp add: CreateEntity_def registry_freed_def registry_again_def storage_none_def
      storage_again_def Init_def masks_eval ComposeEntity_def EntityToIndex_def
      EntityToVersion_def Let_def)

lemma has_single_bit_2: "has_single_bit 2"
  using has_single_bit_pow [of 1] by simp

lemma example_create_chunked: "CreateEntity 2 0 (Registry_new 2 2) = (Inr 0, chunked_registry_one)"
  using has_single_bit_2
  by (simp add: CreateEntity_def Registry_new_def chunked_registry_one_def chunked_one_def
      chunked_handle_def Init_def ComponentStorage_new_def container_new_def IsContiguous_def
      masks_eval ComposeEntity_def EntityToIndex_def ChunkedArray_new_def emplace_back_def
      allocate_new_chunk_def make_chunk_def construct_at_def set_slot_def ptr_add_def
      ensure_size_def allocate_chunks_for_def construct_new_slots_def construct_range_def
      update_write_ptr_def subscript_assign_def subscript_def get_slot_def size_ca_def
      push_chunks_until_eq replicate_two Let_def)



lemma reachable_new_contiguous: "reachable 0 (0::nat) (Registry_new 0 2)"
  by (rule reach_new) (simp_all add: IsContiguous_def)

lemma reachable_registry_one: "reachable 0 0 registry_one"
  using reachable_new_contiguous example_create by (rule reach_create) simp

lemma reachable_registry_freed: "reachable 0 0 registry_freed"
  using reachable_registry_one example_destroy by (rule reach_destroy) simp


lemma reachable_new_chunked: "reachable 2 (0::nat) (Registry_new 2 2)"
  by (rule reach_new) (simp_all add: has_single_bit_2)

section \<open>The claims\<close>

text \<open>
  C5. With chunk size 256: after pushing 384 elements, popping until the size is 256 and
  pushing the value 777, the size is 257, the chunk count is still 2 (as it was after the
  384 pushes), the element at index 256 is 777, and no destructor call of the sequence hit a
  slot without a live element (no element was destroyed twice).
\<close>

theorem pop_push_write_cursor_scenario:
  "\<exists>a. pop_while_above 256 256 (push_upto 256 384 ChunkedArray_new) = Some a \<and>
       size_ca a = 256 \<and>
       size_ca (push_back 256 777 a) = 257 \<and>
       chunk_count (push_upto 256 384 ChunkedArray_new) = 2 \<and>
       chunk_count (push_back 256 777 a) = 2 \<and>
       subscript 256 (push_back 256 777 a) 256 = Some 777 \<and>
       dead_destroys (push_back 256 777 a) = 0"
proof -
  let ?a1 = "push_upto 256 384 ChunkedArray_new"
  note cs = has_single_bit_256
  have t1: "ca_tight 256 ?a1" and n1: "elemCount ?a1 = 384" and d1: "dead_destroys ?a1 = 0"
    using push_upto_tight [OF cs, of 384] by simp_all
  have g1: "ca_good 256 ?a1" using t1 by (rule tight_good)
  have "256 * length (chunks ?a1) < 384 + 256" "384 \<le> 256 * length (chunks ?a1)"
    using t1 n1 good_bound [OF g1] by (simp_all add: ca_tight_def)
  then have c1: "length (chunks ?a1) = 2" by simp
  obtain a where a: "pop_while_above 256 256 ?a1 = Some a" "ca_good 256 a"
    "elemCount a = min 256 (elemCount ?a1)" "length (chunks a) = length (chunks ?a1)"
    "dead_destroys a = dead_destroys ?a1"
    using pop_while_above_good [OF cs g1, of 256] by blast
  have na: "elemCount a = 256" using a(3) n1 by simp
  let ?a3 = "emplace_back 256 777 a"
  have n3: "elemCount ?a3 = 257" and c3: "length (chunks ?a3) = 2"
    and d3: "dead_destroys ?a3 = 0"
    using emplace_back_fields(1,2,3) [OF cs a(2), of 777] na a(4,5) c1 d1 by simp_all
  have "subscript 256 ?a3 256 = Some (ca_list ?a3 ! 256)"
    using emplace_back_flat(1) [OF cs a(2)] emplace_back_live(1) [OF cs a(2)] n3
    by (intro subscript_live [OF cs]) simp_all
  moreover have "length (ca_list a) = 256"
    using a(2) na by (simp add: ca_good_def length_ca_list)
  ultimately have s3: "subscript 256 ?a3 256 = Some 777"
    using emplace_back_live(2) [OF cs a(2), of 777] by (simp add: nth_append)
  show ?thesis
    using a(1) na n3 c1 c3 s3 d3 by (simp add: push_back_def size_ca_def chunk_count_def)
qed


subsection \<open>Claims about the registry\<close>



text \<open>
  C4. In every state of a registry: when \<open>DestroyEntity(e)\<close> returns and the next operation is
  \<open>CreateEntity\<close>, that call returns a handle \<open>e'\<close> (it does not throw) with the index of \<open>e\<close>
  and the version of \<open>e\<close> plus one modulo \<open>2 ^ VERSION_BITS\<close>; \<open>e\<close> is invalid after the destroy
  and \<open>e'\<close> is valid after the create.
\<close>

theorem C4_index_reuse_version_bump:
  assumes reach: "reachable cs dflt r"
    and de: "DestroyEntity cs e r = (Inr (), r1)"
    and cr: "CreateEntity cs dflt r1 = (res, r2)"
    and defined: "res \<noteq> Inl UndefinedBehaviour"
  shows "\<exists>e'. res = Inr e' \<and>
           EntityToIndex e' = EntityToIndex e \<and>
           EntityToVersion e' = (EntityToVersion e + 1) AND VERSION_MASK \<and>
           unat (EntityToVersion e') = (unat (EntityToVersion e) + 1) mod 2 ^ VERSION_BITS \<and>
           \<not> IsValidEntity cs r1 e \<and>
           IsValidEntity cs r2 e'"
proof -
  let ?i = "EntityToIndex e"
  let ?nv = "(EntityToVersion e + 1) AND VERSION_MASK"
  have inv: "registry_inv cs r" using reach by (rule reachable_inv)
  note d = DestroyEntity_ok [OF inv de]
  have inv1: "registry_inv cs r1" using inv de by (rule registry_inv_destroy)
  have fl1: "free_list_ok r1" and small1: "c_size (entities r1) \<le> unat INDEX_MASK"
    using inv1 by (simp_all add: registry_inv_def)
  have al: "storages_aligned r" using inv by (simp add: registry_inv_def)
  have "unat (fSize r) \<le> 1048575"
    using aligned_sizes [OF al] inv by (simp add: registry_inv_def unat_INDEX_MASK)
  then have "unat (fSize r1) = Suc (unat (fSize r))" using d(7) by (simp add: unat_word_ariths)
  then have pos: "0 < fSize r1" by (simp add: word_pos_unat)
  from CreateEntity_reuse_result [OF pos cr] defined
  obtain e' where res: "res = Inr e'" by auto
  note c = CreateEntity_reuse [OF inv1 pos cr [unfolded res]]
  have len1: "length (c_list (entities r1)) = length (c_list (entities r))" using d(5) by simp
  have slot: "c_list (entities r1) ! unat ?i = ComposeEntity (fNext r) (NextEntityVersion e)"
    using d(5) d(2) by simp
  have nv: "NextEntityVersion e = ?nv"
    using d(1) by (simp add: NextEntityVersion_def IsNullEntity_def)
  have "VERSION_MASK AND VERSION_MASK = VERSION_MASK" by simp
  then have nvm: "?nv AND VERSION_MASK = ?nv" by (simp only: and.assoc)
  have e': "e' = ComposeEntity ?i ?nv"
    using c(2) d(6) slot nv nvm by (simp add: EntityToVersion_Compose)
  have idx: "EntityToIndex e' = ?i"
    by (simp add: e' EntityToIndex_Compose EntityToIndex_masked)
  have ver: "EntityToVersion e' = ?nv"
    using nvm by (simp add: e' EntityToVersion_Compose)
  have "EntityToIndex (c_list (entities r1) ! unat ?i) \<noteq> ?i"
    using free_head(2) [OF fl1 pos] d(6) by simp
  then have "c_list (entities r1) ! unat ?i \<noteq> e" by auto
  then have inval: "\<not> IsValidEntity cs r1 e"
    using IsValidEntity_iff [OF d(4), of e] by simp
  have lt2: "unat (EntityToIndex e') < length (c_list (entities r2))"
    using c(4) d(6) d(2) len1 idx by simp
  have "length (c_list (entities r2)) \<le> unat INDEX_MASK"
    using c(4) small1 c_size_list [OF d(4)] by simp
  with lt2 have nn: "e' \<noteq> NullEntity" by (rule index_less_not_Null)
  have "c_list (entities r2) ! unat (EntityToIndex e') = e'"
    using c(4) d(6) d(2) len1 idx by simp
  then have val: "IsValidEntity cs r2 e'"
    using IsValidEntity_iff [OF c(3), of e'] nn lt2 by simp
  show ?thesis
    using res idx ver inval val unat_next_version [of e] by simp
qed

theorem C4_index_reuse_version_bump_witness:
  "DestroyEntity 0 0 registry_one = (Inr (), registry_freed) \<and>
   CreateEntity 0 0 registry_freed = (Inr 1048576, registry_again) \<and>
   EntityToIndex 1048576 = EntityToIndex 0 \<and>
   EntityToVersion 1048576 = (EntityToVersion 0 + 1) AND VERSION_MASK \<and>
   unat (EntityToVersion 1048576) = (unat (EntityToVersion 0) + 1) mod 2 ^ VERSION_BITS \<and>
   \<not> IsValidEntity 0 registry_freed 0 \<and>
   IsValidEntity 0 registry_again 1048576"
  using C4_index_reuse_version_bump
          [OF reachable_registry_one example_destroy example_create_again]
        example_destroy example_create_again
  by blast

text \<open>
  C6. In every state of a registry, \<open>IsValidEntity(e)\<close> is false for the null handle, false
  when the index of \<open>e\<close> is not below the size of the entity table, false when the table's
  handle at that index is not \<open>e\<close>, and true otherwise; the read of the table at an index below
  its size is always defined.
\<close>

theorem C6_IsValidEntity_cases:
  assumes reach: "reachable cs dflt r"
  shows "(IsNullEntity e \<longrightarrow> \<not> IsValidEntity cs r e) \<and>
         (c_size (entities r) \<le> unat (EntityToIndex e) \<longrightarrow> \<not> IsValidEntity cs r e) \<and>
         (unat (EntityToIndex e) < c_size (entities r) \<and>
          c_get cs (entities r) (unat (EntityToIndex e)) \<noteq> Some e \<longrightarrow> \<not> IsValidEntity cs r e) \<and>
         (\<not> IsNullEntity e \<and> unat (EntityToIndex e) < c_size (entities r) \<and>
          c_get cs (entities r) (unat (EntityToIndex e)) = Some e \<longrightarrow> IsValidEntity cs r e) \<and>
         (unat (EntityToIndex e) < c_size (entities r) \<longrightarrow>
          c_get cs (entities r) (unat (EntityToIndex e)) =
            Some (c_list (entities r) ! unat (EntityToIndex e)))"
proof -
  have ci: "c_inv cs (entities r)"
    using reachable_inv [OF reach] by (simp add: registry_inv_def)
  show ?thesis
    using c_get_list [OF ci, of "unat (EntityToIndex e)"]
    by (auto simp: IsValidEntity_def Let_def)
qed

theorem C6_IsValidEntity_cases_witness:
  "IsValidEntity 0 registry_one 0 \<and>
   \<not> IsValidEntity 0 registry_one NullEntity \<and>
   \<not> IsValidEntity 0 registry_one 1 \<and>
   \<not> IsValidEntity 0 registry_one 1048576"
proof -
  have null: "IsNullEntity NullEntity" by (simp add: IsNullEntity_def)
  have live: "\<not> IsNullEntity 0 \<and> unat (EntityToIndex 0) < c_size (entities registry_one) \<and>
      c_get 0 (entities registry_one) (unat (EntityToIndex 0)) = Some 0"
    by (simp add: IsNullEntity_def NullEntity_def EntityToIndex_def registry_one_def)
  have out: "c_size (entities registry_one) \<le> unat (EntityToIndex 1)"
    by (simp add: EntityToIndex_def registry_one_def masks_eval)
  have stale: "unat (EntityToIndex 1048576) < c_size (entities registry_one) \<and>
      c_get 0 (entities registry_one) (unat (EntityToIndex 1048576)) \<noteq> Some 1048576"
    by (simp add: EntityToIndex_def registry_one_def masks_eval)
  show ?thesis
    using C6_IsValidEntity_cases [OF reachable_registry_one, of 0]
      C6_IsValidEntity_cases [OF reachable_registry_one, of NullEntity]
      C6_IsValidEntity_cases [OF reachable_registry_one, of 1]
      C6_IsValidEntity_cases [OF reachable_registry_one, of 1048576]
      null live out stale
    by blast
qed

text \<open>
  C7. In every state of a registry: after \<open>DestroyEntity(e)\<close> has returned, a second
  \<open>DestroyEntity(e)\<close> throws the invalid-entity error (stale handle) and leaves the registry
  as it was.
\<close>

theorem C7_double_destroy:
  assumes reach: "reachable cs dflt r"
    and de: "DestroyEntity cs e r = (Inr (), r1)"
  shows "DestroyEntity cs e r1 = (Inl StaleEntityError, r1)"
proof -
  have inv: "registry_inv cs r" using reach by (rule reachable_inv)
  note d = DestroyEntity_ok [OF inv de]
  have inv1: "registry_inv cs r1" using inv de by (rule registry_inv_destroy)
  then have fl1: "free_list_ok r1" and al: "storages_aligned r"
    using inv by (simp_all add: registry_inv_def)
  have "unat (fSize r) \<le> 1048575"
    using aligned_sizes [OF al] inv by (simp add: registry_inv_def unat_INDEX_MASK)
  then have "unat (fSize r1) = Suc (unat (fSize r))" using d(7) by (simp add: unat_word_ariths)
  then have pos: "0 < fSize r1" by (simp add: word_pos_unat)
  have "EntityToIndex (c_list (entities r1) ! unat (EntityToIndex e)) \<noteq> EntityToIndex e"
    using free_head(2) [OF fl1 pos] d(6) by simp
  then have ne: "c_list (entities r1) ! unat (EntityToIndex e) \<noteq> e" by auto
  have lt: "unat (EntityToIndex e) < c_size (entities r1)"
    using c_size_list [OF d(4)] d(5) d(2) by simp
  have "CheckEntity cs r1 e = Some StaleEntityError"
    using d(1) lt ne c_get_list [OF d(4) lt]
    by (simp add: CheckEntity_def Let_def IsNullEntity_def)
  then show ?thesis by (simp add: DestroyEntity_def)
qed

theorem C7_double_destroy_witness:
  "DestroyEntity 0 0 registry_one = (Inr (), registry_freed) \<and>
   DestroyEntity 0 0 registry_freed = (Inl StaleEntityError, registry_freed)"
  using C7_double_destroy [OF reachable_registry_one example_destroy] example_destroy
  by blast

text \<open>
  C9. In every state of a registry, for a handle \<open>e\<close> that \<open>IsValidEntity\<close> rejects,
  \<open>DestroyEntity(e)\<close> and \<open>SetSafe(e, ...)\<close> throw an invalid-entity error (null, out of bounds
  or stale) and the registry at the throw is the registry before the call: the entity table,
  the free list and every storage are unchanged.
\<close>

theorem C9_invalid_entity_error_atomicity:
  assumes reach: "reachable cs dflt r"
    and invalid: "\<not> IsValidEntity cs r e"
  shows "\<exists>err. (err = NullEntityError \<or> err = OutOfBoundsError \<or> err = StaleEntityError) \<and>
           DestroyEntity cs e r = (Inl err, r) \<and>
           SetSafe cs k e v r = (Inl err, r)"
proof -
  have ci: "c_inv cs (entities r)"
    using reachable_inv [OF reach] by (simp add: registry_inv_def)
  have "CheckEntity cs r e \<noteq> None"
    using invalid CheckEntity_None [OF ci, of e] IsValidEntity_iff [OF ci, of e] by simp
  then have "CheckEntity cs r e = Some NullEntityError \<or>
        CheckEntity cs r e = Some OutOfBoundsError \<or>
        CheckEntity cs r e = Some StaleEntityError"
    using CheckEntity_cases [OF ci, of e] by auto
  then show ?thesis by (auto simp: DestroyEntity_def SetSafe_def)
qed

theorem C9_invalid_entity_error_atomicity_witness:
  "\<not> IsValidEntity 0 registry_freed 0 \<and>
   (\<exists>err. DestroyEntity 0 0 registry_freed = (Inl err, registry_freed) \<and>
          SetSafe 0 1 0 7 registry_freed = (Inl err, registry_freed))"
proof -
  have invalid: "\<not> IsValidEntity 0 registry_freed 0"
    by (simp add: IsValidEntity_def registry_freed_def IsNullEntity_def NullEntity_def
        EntityToIndex_def)
  then show ?thesis
    using C9_invalid_entity_error_atomicity [OF reachable_registry_freed invalid, of 1 7]
    by blast
qed

text \<open>
  C10. In every state of a registry in which \<open>CreateEntity\<close> returns a handle: the handle is
  not \<open>NullEntity\<close>, its index is below \<open>INDEX_MASK\<close>, it is valid after the call and was not
  valid before it; every handle that was valid before the call is another handle and is still
  valid, and the handles valid after the call are these and the new one.
\<close>

theorem C10_created_handle_fresh_and_valid:
  assumes reach: "reachable cs dflt r"
    and cr: "CreateEntity cs dflt r = (Inr e', r')"
  shows "e' \<noteq> NullEntity \<and>
         EntityToIndex e' < INDEX_MASK \<and>
         IsValidEntity cs r' e' \<and>
         \<not> IsValidEntity cs r e' \<and>
         (\<forall>h. IsValidEntity cs r h \<longrightarrow> h \<noteq> e' \<and> IsValidEntity cs r' h) \<and>
         (\<forall>h. IsValidEntity cs r' h \<longrightarrow> h = e' \<or> IsValidEntity cs r h)"
proof -
  let ?ents = "c_list (entities r)"
  let ?ents' = "c_list (entities r')"
  let ?i = "EntityToIndex e'"
  have inv: "registry_inv cs r" using reach by (rule reachable_inv)
  then have ci: "c_inv cs (entities r)" by (simp add: registry_inv_def)
  have inv': "registry_inv cs r'" using inv cr by (rule registry_inv_create)
  then have ci': "c_inv cs (entities r')" and small': "c_size (entities r') \<le> unat INDEX_MASK"
    by (simp_all add: registry_inv_def)
  have sz': "c_size (entities r') = length ?ents'" using ci' by (rule c_size_list)
  note k = CreateEntity_slot [OF inv cr]
  have "unat ?i < unat INDEX_MASK" using k(1) small' sz' by simp
  then have lt_mask: "?i < INDEX_MASK" by (simp add: word_less_nat_alt)
  then have nn: "e' \<noteq> NullEntity" using EntityToIndex_Null by auto
  have val': "IsValidEntity cs r' e'"
    using IsValidEntity_iff [OF ci', of e'] nn k(1) k(2) by simp
  have inval: "\<not> IsValidEntity cs r e'"
  proof
    assume "IsValidEntity cs r e'"
    from valid_is_live(1,2) [OF ci this] k(5) show False by simp
  qed
  have old: "h \<noteq> e' \<and> IsValidEntity cs r' h" if h: "IsValidEntity cs r h" for h
  proof -
    note v = valid_is_live [OF ci h]
    have hn: "h \<noteq> NullEntity" using h IsValidEntity_iff [OF ci, of h] by simp
    have ne: "unat (EntityToIndex h) \<noteq> unat ?i"
    proof
      assume eq: "unat (EntityToIndex h) = unat ?i"
      then have "EntityToIndex h = ?i" by (simp add: word_unat_eq_iff)
      with v(1,2) eq k(5) show False by simp
    qed
    have lt: "unat (EntityToIndex h) < length ?ents'" using v(1) k(3) by simp
    from k(4) [OF lt ne] v(3) have "?ents' ! unat (EntityToIndex h) = h" by simp
    with lt hn have "IsValidEntity cs r' h" using IsValidEntity_iff [OF ci', of h] by simp
    moreover have "h \<noteq> e'" using h inval by auto
    ultimately show ?thesis by simp
  qed
  have new: "h = e' \<or> IsValidEntity cs r h" if h: "IsValidEntity cs r' h" for h
  proof (cases "unat (EntityToIndex h) = unat ?i")
    case True
    have "h = ?ents' ! unat (EntityToIndex h)"
      using valid_is_live(3) [OF ci' h] by (rule sym)
    also have "\<dots> = ?ents' ! unat ?i" by (simp only: True)
    also have "\<dots> = e'" by (rule k(2))
    finally show ?thesis by (rule disjI1)
  next
    case False
    note v = valid_is_live [OF ci' h]
    have hn: "h \<noteq> NullEntity" using h IsValidEntity_iff [OF ci', of h] by simp
    from k(4) [OF v(1) False] v(3)
    have "unat (EntityToIndex h) < length ?ents" "?ents ! unat (EntityToIndex h) = h"
      by simp_all
    then show ?thesis using IsValidEntity_iff [OF ci, of h] hn by simp
  qed
  have old': "\<forall>h. IsValidEntity cs r h \<longrightarrow> h \<noteq> e' \<and> IsValidEntity cs r' h"
    using old by (intro allI impI)
  have new': "\<forall>h. IsValidEntity cs r' h \<longrightarrow> h = e' \<or> IsValidEntity cs r h"
    using new by (intro allI impI)
  show ?thesis
    by (intro conjI) (rule nn lt_mask val' inval old' new')+
qed

theorem C10_created_handle_fresh_and_valid_witness:
  "CreateEntity 2 0 (Registry_new 2 2) = (Inr 0, chunked_registry_one) \<and>
   0 \<noteq> NullEntity \<and> EntityToIndex 0 < INDEX_MASK \<and>
   IsValidEntity 2 chunked_registry_one 0 \<and>
   \<not> IsValidEntity 2 (Registry_new 2 2 :: nat Registry) 0 \<and>
   CreateEntity 0 0 registry_freed = (Inr 1048576, registry_again) \<and>
   IsValidEntity 0 registry_again 1048576"
  using C10_created_handle_fresh_and_valid [OF reachable_new_chunked example_create_chunked]
    C10_created_handle_fresh_and_valid [OF reachable_registry_freed example_create_again]
    example_create_chunked example_create_again
  by blast
end
